theory Spec2Isabelle
  imports Complex_Main "HOL-Library.Multiset"
begin

section \<open>JavaScript values\<close>

text \<open>
  A JavaScript number is a finite value or one of the three special values. Comparisons of
  numbers are exact. The operations \<open>*\<close>, \<open>+\<close> and \<open>-\<close> on doubles round, overflow to an
  infinity and underflow to zero; they belong to the JavaScript engine, not to this
  repository, and are parameters of every function that computes with numbers.
\<close>

datatype jsnum = Fin real | PosInf | NegInf | NaN

record arith =
  f_mul :: "jsnum \<Rightarrow> jsnum \<Rightarrow> jsnum"
  f_add :: "jsnum \<Rightarrow> jsnum \<Rightarrow> jsnum"
  f_sub :: "jsnum \<Rightarrow> jsnum \<Rightarrow> jsnum"

text \<open>
  Exact arithmetic, which agrees with the arithmetic of doubles wherever the exact result
  is a double, as it is for the small integers of the examples below.
\<close>

fun js_isFinite :: "jsnum \<Rightarrow> bool" where
  "js_isFinite (Fin r) = True"
| "js_isFinite PosInf = False"
| "js_isFinite NegInf = False"
| "js_isFinite NaN = False"

fun js_neg :: "jsnum \<Rightarrow> jsnum" where
  "js_neg (Fin r) = Fin (- r)"
| "js_neg PosInf = NegInf"
| "js_neg NegInf = PosInf"
| "js_neg NaN = NaN"

fun exact_add :: "jsnum \<Rightarrow> jsnum \<Rightarrow> jsnum" where
  "exact_add (Fin a) (Fin b) = Fin (a + b)"
| "exact_add NaN b = NaN"
| "exact_add a NaN = NaN"
| "exact_add PosInf NegInf = NaN"
| "exact_add NegInf PosInf = NaN"
| "exact_add PosInf b = PosInf"
| "exact_add NegInf b = NegInf"
| "exact_add a PosInf = PosInf"
| "exact_add a NegInf = NegInf"

definition exact_sub :: "jsnum \<Rightarrow> jsnum \<Rightarrow> jsnum" where
  "exact_sub a b = exact_add a (js_neg b)"

fun js_sign :: "jsnum \<Rightarrow> int" where
  "js_sign (Fin r) = (if r < 0 then - 1 else if r = 0 then 0 else 1)"
| "js_sign PosInf = 1"
| "js_sign NegInf = - 1"
| "js_sign NaN = 0"

fun exact_mul :: "jsnum \<Rightarrow> jsnum \<Rightarrow> jsnum" where
  "exact_mul (Fin a) (Fin b) = Fin (a * b)"
| "exact_mul NaN b = NaN"
| "exact_mul a NaN = NaN"
| "exact_mul a b =
     (if js_sign a * js_sign b = 0 then NaN
      else if js_sign a * js_sign b < 0 then NegInf else PosInf)"

definition exact_arith :: arith where
  "exact_arith = \<lparr>f_mul = exact_mul, f_add = exact_add, f_sub = exact_sub\<rparr>"

text \<open>\<open>a <= b\<close> and \<open>a < b\<close>; every comparison with NaN is false.\<close>

fun js_le :: "jsnum \<Rightarrow> jsnum \<Rightarrow> bool" where
  "js_le (Fin a) (Fin b) = (a \<le> b)"
| "js_le NaN b = False"
| "js_le a NaN = False"
| "js_le NegInf b = True"
| "js_le a PosInf = True"
| "js_le a b = False"

fun js_lt :: "jsnum \<Rightarrow> jsnum \<Rightarrow> bool" where
  "js_lt (Fin a) (Fin b) = (a < b)"
| "js_lt NaN b = False"
| "js_lt a NaN = False"
| "js_lt PosInf b = False"
| "js_lt a NegInf = False"
| "js_lt a b = True"

text \<open>\<open>a >= b\<close> is \<open>b <= a\<close>.\<close>

definition js_ge :: "jsnum \<Rightarrow> jsnum \<Rightarrow> bool" where
  "js_ge a b = js_le b a"

text \<open>
  Any value, as \<open>JSON.parse\<close> produces it, together with \<open>undefined\<close>. An object is the
  list of its own properties in enumeration order.
\<close>

datatype jsval =
    Undefined
  | Null
  | Bool bool
  | Number jsnum
  | String string
  | Array "jsval list"
  | Object "(string \<times> jsval) list"

text \<open>The values that are not objects: what \<open>!v || typeof v !== 'object'\<close> accepts.\<close>

datatype prim = PUndefined | PNull | PBool bool | PNumber jsnum | PString string

text \<open>\<open>v == null\<close>, the test behind \<open>??\<close>.\<close>

definition nullish :: "jsval \<Rightarrow> bool" where
  "nullish v = (v = Undefined \<or> v = Null)"

text \<open>\<open>a ?? b\<close>\<close>

definition coalesce :: "jsval \<Rightarrow> jsval \<Rightarrow> jsval" where
  "coalesce a b = (if nullish a then b else a)"

text \<open>ToBoolean.\<close>

fun truthy :: "jsval \<Rightarrow> bool" where
  "truthy Undefined = False"
| "truthy Null = False"
| "truthy (Bool b) = b"
| "truthy (Number n) = (n \<noteq> NaN \<and> n \<noteq> Fin 0)"
| "truthy (String s) = (s \<noteq> [])"
| "truthy (Array vs) = True"
| "truthy (Object kvs) = True"

text \<open>
  A record \<open>{}\<close> is the list of its own properties in enumeration order: the keys that are
  array indices (canonical decimal numerals below \<open>2^32 - 1\<close>) in ascending order, then the
  other keys in the order of their creation. \<open>lookup\<close> reads an own property and
  \<open>define_own\<close> writes one: an existing key keeps its place, a new key is created at its
  place in the enumeration order.
\<close>

definition lookup :: "('k \<times> 'v) list \<Rightarrow> 'k \<Rightarrow> 'v option" where
  "lookup m k = map_of m k"

definition keys :: "('k \<times> 'v) list \<Rightarrow> 'k set" where
  "keys m = fst ` set m"

definition is_digit :: "char \<Rightarrow> bool" where
  "is_digit c = (48 \<le> (of_char c :: int) \<and> (of_char c :: int) \<le> 57)"

definition decimal :: "string \<Rightarrow> int" where
  "decimal s = foldl (\<lambda>a c. 10 * a + ((of_char c :: int) - 48)) 0 s"

definition array_index :: "string \<Rightarrow> int option" where
  "array_index s =
     (if s = [] \<or> \<not> list_all is_digit s \<or> (hd s = CHR ''0'' \<and> s \<noteq> ''0'') then None
      else if decimal s < 4294967295 then Some (decimal s) else None)"

fun insert_index :: "int \<Rightarrow> string \<Rightarrow> 'v \<Rightarrow> (string \<times> 'v) list \<Rightarrow> (string \<times> 'v) list" where
  "insert_index n k v [] = [(k, v)]"
| "insert_index n k v (p # ps) =
     (case array_index (fst p) of
        None \<Rightarrow> (k, v) # p # ps
      | Some m \<Rightarrow> if m < n then p # insert_index n k v ps else (k, v) # p # ps)"

fun replace_own :: "(string \<times> 'v) list \<Rightarrow> string \<Rightarrow> 'v \<Rightarrow> (string \<times> 'v) list" where
  "replace_own [] k v = []"
| "replace_own (p # ps) k v = (if fst p = k then (k, v) # ps else p # replace_own ps k v)"

definition define_own :: "(string \<times> 'v) list \<Rightarrow> string \<Rightarrow> 'v \<Rightarrow> (string \<times> 'v) list" where
  "define_own m k v =
     (if k \<in> keys m then replace_own m k v
      else case array_index k of
             None \<Rightarrow> m @ [(k, v)]
           | Some n \<Rightarrow> insert_index n k v m)"

text \<open>
  A record inherits the members of \<open>Object.prototype\<close>, here those of V8: reading one of
  these keys from a record that has no such own property gives the inherited member, a
  function, or for \<open>__proto__\<close> the prototype itself, never \<open>undefined\<close>. An assignment to
  an inherited method creates an own property; an assignment to \<open>__proto__\<close> calls the
  inherited setter, which replaces the prototype of the record when the value is an object
  or \<open>null\<close>, does nothing otherwise, and creates no own property.
\<close>

definition object_prototype_names :: "string list" where
  "object_prototype_names =
     [''constructor'', ''__defineGetter__'', ''__defineSetter__'', ''hasOwnProperty'',
      ''__lookupGetter__'', ''__lookupSetter__'', ''isPrototypeOf'', ''propertyIsEnumerable'',
      ''toString'', ''valueOf'', ''__proto__'', ''toLocaleString'']"

definition inherited :: "string \<Rightarrow> bool" where
  "inherited k = (k \<in> set object_prototype_names)"

text \<open>
  The property key that an inherited member turns into when it is used as one: the text
  of the function as V8 prints it, and \<open>[object Object]\<close> for the prototype.
\<close>

definition member_key :: "string \<Rightarrow> string" where
  "member_key k =
     (if k = ''__proto__'' then ''[object Object]''
      else if k = ''constructor'' then ''function Object() { [native code] }''
      else ''function '' @ k @ ''() { [native code] }'')"

datatype error = TypeError

section \<open>The document and the tree index (lib/lanhu.ts)\<close>

text \<open>
  \<open>LanhuLayerNode\<close>, an object that \<open>JSON.parse\<close> has made: the optional \<open>id\<close>, a string as the
  type declares it (\<open>None\<close> when the field is absent); the optional \<open>layers\<close>, an array as
  the type declares it (\<open>None\<close> when the field is absent); and the open bag of all other
  own properties. An element of a \<open>layers\<close> array is either such an object or a value that
  is not an object, which the traversal guards against. In \<open>LanhuSketchJson\<close> a missing
  \<open>artboard\<close> is \<open>NotObject PUndefined\<close>.
\<close>

datatype 'a entry = NotObject prim | ObjectEntry 'a

datatype layer =
  Layer (layer_id: "string option") (layer_layers: "layer entry list option")
        (layer_props: "(string \<times> jsval) list")

record LanhuSketchJson =
  meta :: jsval
  assets :: jsval
  artboard :: "layer entry"

text \<open>
  \<open>LanhuTree\<close>: the own properties of the three records and the list of root ids, and the
  prototypes that an assignment to the key \<open>__proto__\<close> can replace: \<open>nodesProto\<close> is the
  layer that has become the prototype of \<open>nodesById\<close> (\<open>None\<close> while it is
  \<open>Object.prototype\<close>), \<open>parentProtoNull\<close> says that the prototype of \<open>parentById\<close> has
  become \<open>null\<close>. The prototype of \<open>childrenById\<close> never changes.
\<close>

record LanhuTree =
  nodesById :: "(string \<times> layer) list"
  childrenById :: "(string \<times> string list) list"
  parentById :: "(string \<times> string option) list"
  rootIds :: "string list"
  nodesProto :: "layer option"
  parentProtoNull :: bool

definition empty_tree :: LanhuTree where
  "empty_tree = \<lparr>nodesById = [], childrenById = [], parentById = [], rootIds = [],
                  nodesProto = None, parentProtoNull = False\<rparr>"

text \<open>
  \<open>nodesById[id] = node\<close>. The setter of \<open>__proto__\<close> is reached through the prototype chain
  unless the layer that is the prototype has an own property of that name.
\<close>

definition set_node :: "LanhuTree \<Rightarrow> string \<Rightarrow> layer \<Rightarrow> LanhuTree" where
  "set_node t i node =
     (if i = ''__proto__'' \<and> i \<notin> keys (nodesById t)
         \<and> (case nodesProto t of None \<Rightarrow> True | Some x \<Rightarrow> i \<notin> keys (layer_props x))
      then t\<lparr>nodesProto := Some node\<rparr>
      else t\<lparr>nodesById := define_own (nodesById t) i node\<rparr>)"

text \<open>\<open>parentById[id] = v\<close> for a parent id or \<open>null\<close>.\<close>

definition set_parent :: "LanhuTree \<Rightarrow> string \<Rightarrow> string option \<Rightarrow> LanhuTree" where
  "set_parent t i v =
     (if i = ''__proto__'' \<and> i \<notin> keys (parentById t) \<and> \<not> parentProtoNull t
      then (case v of None \<Rightarrow> t\<lparr>parentProtoNull := True\<rparr> | Some p \<Rightarrow> t)
      else t\<lparr>parentById := define_own (parentById t) i v\<rparr>)"

text \<open>
  \<open>(childrenById[parentId] ??= []).push(id)\<close>. When \<open>parentId\<close> names an inherited member
  and is no own key, the read gives that member, which has no \<open>push\<close>: the call throws.
\<close>

definition push_child ::
    "(string \<times> string list) list \<Rightarrow> string \<Rightarrow> string \<Rightarrow> error + (string \<times> string list) list" where
  "push_child cb pid i =
     (case lookup cb pid of
        Some cs \<Rightarrow> Inr (define_own cb pid (cs @ [i]))
      | None \<Rightarrow> if inherited pid then Inl TypeError else Inr (define_own cb pid [i]))"

text \<open>A stack entry \<open>{ parentId, nodes }\<close>; the head of the list is the top of the stack.\<close>

type_synonym work = "string \<times> layer entry list"

text \<open>\<open>if (Array.isArray(node.layers) && node.layers.length) stack.push(...)\<close>\<close>

definition push_layers :: "string \<Rightarrow> layer \<Rightarrow> work list \<Rightarrow> work list" where
  "push_layers pid node stack =
     (case layer_layers node of
        None \<Rightarrow> stack
      | Some [] \<Rightarrow> stack
      | Some (e # es) \<Rightarrow> (pid, e # es) # stack)"

text \<open>
  The body of the \<open>for (const node of nodes)\<close> loop, and the loop, which an exception
  leaves.
\<close>

fun visit :: "string \<Rightarrow> layer entry \<Rightarrow> LanhuTree \<times> work list \<Rightarrow> error + LanhuTree \<times> work list" where
  "visit parentId (NotObject p) (t, stack) = Inr (t, stack)"
| "visit parentId (ObjectEntry node) (t, stack) =
     (case layer_id node of
        None \<Rightarrow> Inr (t, stack)
      | Some i \<Rightarrow>
          if i = [] then Inr (t, stack)
          else (case push_child (childrenById t) parentId i of
                  Inl e \<Rightarrow> Inl e
                | Inr cb \<Rightarrow>
                    Inr ((set_parent (set_node t i node) i (Some parentId))\<lparr>childrenById := cb\<rparr>,
                         push_layers i node stack)))"

fun visit_all :: "string \<Rightarrow> layer entry list \<Rightarrow> LanhuTree \<times> work list \<Rightarrow> error + LanhuTree \<times> work list" where
  "visit_all parentId [] st = Inr st"
| "visit_all parentId (e # es) st =
     (case visit parentId e st of
        Inl err \<Rightarrow> Inl err
      | Inr st' \<Rightarrow> visit_all parentId es st')"

text \<open>The weight of a stack bounds the number of iterations still to come.\<close>

fun weight :: "layer \<Rightarrow> nat" where
  "weight (Layer i ls ps) =
     Suc (sum_list (map (\<lambda>e. case e of NotObject p \<Rightarrow> 0 | ObjectEntry l \<Rightarrow> weight l)
                        (case ls of None \<Rightarrow> [] | Some es \<Rightarrow> es)))"

definition entry_weight :: "layer entry \<Rightarrow> nat" where
  "entry_weight e = (case e of NotObject p \<Rightarrow> 0 | ObjectEntry l \<Rightarrow> weight l)"

definition stack_weight :: "work list \<Rightarrow> nat" where
  "stack_weight stack = sum_list (map (\<lambda>w. Suc (sum_list (map entry_weight (snd w)))) stack)"

lemma entry_weight_case: "case_entry (\<lambda>p. 0) weight = entry_weight"
  by (rule ext) (simp add: entry_weight_def)

lemma push_layers_weight:
  "stack_weight (push_layers i node stack) \<le> weight node + stack_weight stack"
  by (cases node)
     (auto simp: push_layers_def stack_weight_def entry_weight_case split: option.splits list.splits)

lemma visit_weight:
  "visit pid e (t, stack) = Inr st' \<Longrightarrow> stack_weight (snd st') \<le> entry_weight e + stack_weight stack"
proof (cases e)
  case (NotObject p)
  assume "visit pid e (t, stack) = Inr st'"
  with NotObject show ?thesis by auto
next
  case (ObjectEntry node)
  assume "visit pid e (t, stack) = Inr st'"
  with ObjectEntry show ?thesis
    using push_layers_weight [of _ node stack]
    by (auto simp: entry_weight_def split: option.splits if_splits sum.splits)
qed

lemma visit_all_weight:
  "visit_all pid ns st = Inr st'
   \<Longrightarrow> stack_weight (snd st') \<le> sum_list (map entry_weight ns) + stack_weight (snd st)"
proof (induction ns arbitrary: st)
  case Nil
  then show ?case by simp
next
  case (Cons e ns)
  obtain t stack where st: "st = (t, stack)" by (cases st)
  from Cons.prems obtain st1 where v: "visit pid e st = Inr st1" and r: "visit_all pid ns st1 = Inr st'"
    by (auto split: sum.splits)
  have "stack_weight (snd st') \<le> sum_list (map entry_weight ns) + stack_weight (snd st1)"
    using r by (rule Cons.IH)
  also have "\<dots> \<le> sum_list (map entry_weight ns) + (entry_weight e + stack_weight (snd st))"
    using visit_weight [of pid e t stack st1] v by (simp add: st)
  finally show ?case by simp
qed

text \<open>The \<open>while (stack.length)\<close> loop: pop a stack entry and run the \<open>for\<close> loop over it.\<close>

function parse_loop :: "LanhuTree \<times> work list \<Rightarrow> error + LanhuTree" where
  "parse_loop (t, []) = Inr t"
| "parse_loop (t, (parentId, nodes) # stack) =
     (case visit_all parentId nodes (t, stack) of
        Inl err \<Rightarrow> Inl err
      | Inr st \<Rightarrow> parse_loop st)"
  by pat_completeness auto
termination
proof (relation "measure (\<lambda>st. stack_weight (snd st))")
  show "wf (measure (\<lambda>st. stack_weight (snd st)))" by simp
next
  fix t :: LanhuTree and parentId :: string and nodes :: "layer entry list"
    and stack :: "work list" and st :: "LanhuTree \<times> work list"
  assume "visit_all parentId nodes (t, stack) = Inr st"
  then have "stack_weight (snd st) \<le> sum_list (map entry_weight nodes) + stack_weight stack"
    using visit_all_weight [of parentId nodes "(t, stack)" st] by simp
  also have "\<dots> < stack_weight ((parentId, nodes) # stack)"
    by (simp add: stack_weight_def)
  finally show "(st, (t, (parentId, nodes) # stack)) \<in> measure (\<lambda>st. stack_weight (snd st))"
    by simp
qed

text \<open>
  \<open>parseLanhuTree\<close>: \<open>rootIds.push(rootId)\<close>, \<open>parentById[rootId] = null\<close>,
  \<open>nodesById[rootId] = artboard\<close> on fresh records, then the loop.
\<close>

definition parseLanhuTree :: "LanhuSketchJson \<Rightarrow> error + LanhuTree" where
  "parseLanhuTree sketchJson =
     (case artboard sketchJson of
        NotObject p \<Rightarrow> Inr empty_tree
      | ObjectEntry ab \<Rightarrow>
          (case layer_id ab of
             None \<Rightarrow> Inr empty_tree
           | Some rootId \<Rightarrow>
               if rootId = [] then Inr empty_tree
               else parse_loop
                      (set_node (set_parent (empty_tree\<lparr>rootIds := [rootId]\<rparr>) rootId None) rootId ab,
                       push_layers rootId ab [])))"

section \<open>Rectangles, ancestors and export shaping (lib/lanhu.ts)\<close>

text \<open>\<open>node[k]\<close> for a property \<open>k\<close> of the bag; a missing property reads as \<open>undefined\<close>.\<close>

definition node_prop :: "layer \<Rightarrow> string \<Rightarrow> jsval" where
  "node_prop node k = (case lookup (layer_props node) k of None \<Rightarrow> Undefined | Some v \<Rightarrow> v)"

text \<open>
  \<open>v[k]\<close> on a value that is neither \<open>null\<close> nor \<open>undefined\<close>, for a key that no prototype
  defines: the own property of an object, \<open>undefined\<close> on anything else.
\<close>

fun get_field :: "jsval \<Rightarrow> string \<Rightarrow> jsval" where
  "get_field (Object kvs) k = (case lookup kvs k of None \<Rightarrow> Undefined | Some v \<Rightarrow> v)"
| "get_field v k = Undefined"

fun isFiniteNumber :: "jsval \<Rightarrow> bool" where
  "isFiniteNumber (Number n) = js_isFinite n"
| "isFiniteNumber v = False"

text \<open>The number inside a value that has passed \<open>isFiniteNumber\<close>.\<close>

fun as_number :: "jsval \<Rightarrow> jsnum" where
  "as_number (Number n) = n"
| "as_number v = NaN"

record LanhuRect =
  rect_left :: jsnum
  rect_top :: jsnum
  rect_width :: jsnum
  rect_height :: jsnum

definition getNodeRect :: "layer \<Rightarrow> LanhuRect option" where
  "getNodeRect node =
     (let frame = coalesce (coalesce (coalesce (node_prop node ''frame'') (node_prop node ''realFrame''))
                                     (node_prop node ''combinedFrame'')) Null
      in if truthy frame
            \<and> isFiniteNumber (get_field frame ''left'')
            \<and> isFiniteNumber (get_field frame ''top'')
            \<and> isFiniteNumber (get_field frame ''width'')
            \<and> isFiniteNumber (get_field frame ''height'')
         then Some \<lparr>rect_left = as_number (get_field frame ''left''),
                    rect_top = as_number (get_field frame ''top''),
                    rect_width = as_number (get_field frame ''width''),
                    rect_height = as_number (get_field frame ''height'')\<rparr>
         else None)"






text \<open>
  What \<open>getAncestorIds\<close> pushes: a parent id, or the inherited member that the read of
  \<open>tree.parentById[currentId]\<close> gives for an unknown id that names one.
\<close>

datatype ancestor = Parent string | Member string

text \<open>
  The \<open>while (true)\<close> loop of \<open>getAncestorIds\<close>; \<open>None\<close> stands for a walk that never
  reaches the \<open>break\<close>. After an inherited member has been pushed, \<open>currentId\<close> is that
  member, and the next read uses the key it turns into.
\<close>

partial_function (option) ancestors_loop :: "LanhuTree \<Rightarrow> string \<Rightarrow> ancestor list \<Rightarrow> ancestor list option" where
  "ancestors_loop tree currentId result =
     (case lookup (parentById tree) currentId of
        Some None \<Rightarrow> Some result
      | Some (Some parentId) \<Rightarrow>
          if parentId = [] then Some result
          else ancestors_loop tree parentId (result @ [Parent parentId])
      | None \<Rightarrow>
          if inherited currentId \<and> \<not> parentProtoNull tree
          then ancestors_loop tree (member_key currentId) (result @ [Member currentId])
          else Some result)"

declare ancestors_loop.simps [code]

definition getAncestorIds :: "LanhuTree \<Rightarrow> string \<Rightarrow> ancestor list option" where
  "getAncestorIds tree i = ancestors_loop tree i []"

definition pickExportNode :: "layer \<Rightarrow> (string \<times> jsval) list" where
  "pickExportNode node =
     [(''id'', case layer_id node of None \<Rightarrow> Undefined | Some s \<Rightarrow> String s),
      (''name'', coalesce (node_prop node ''name'') Null),
      (''type'', coalesce (node_prop node ''type'') Null),
      (''frame'', coalesce (node_prop node ''frame'') Null),
      (''realFrame'', coalesce (node_prop node ''realFrame'') Null),
      (''combinedFrame'', coalesce (node_prop node ''combinedFrame'') Null),
      (''transform'', coalesce (node_prop node ''transform'') Null),
      (''opacity'', coalesce (node_prop node ''opacity'') Null),
      (''visible'', coalesce (node_prop node ''visible'') Null),
      (''rotation'', coalesce (node_prop node ''rotation'') Null),
      (''clipped'', coalesce (node_prop node ''clipped'') Null),
      (''isMask'', coalesce (node_prop node ''isMask'') Null),
      (''origin'', coalesce (node_prop node ''origin'') Null),
      (''radius'', coalesce (node_prop node ''radius'') Null),
      (''style'', coalesce (node_prop node ''style'') Null),
      (''paths'', coalesce (node_prop node ''paths'') Null),
      (''text'', coalesce (node_prop node ''text'') Null),
      (''image'', coalesce (node_prop node ''image'') Null),
      (''sharedStyle'', coalesce (node_prop node ''sharedStyle'') Null)]"



section \<open>Geometry index, hit test and containment (entrypoints/popup/App.tsx)\<close>

text \<open>An entry \<open>{ id, rect, area }\<close> of the geometry index.\<close>

record index_item =
  item_id :: string
  item_rect :: LanhuRect
  item_area :: jsnum

text \<open>
  \<open>Array.prototype.sort\<close> with a comparator is stable; it is modelled as the stable
  insertion sort that places \<open>x\<close> before \<open>y\<close> when \<open>cmp x y\<close> is not positive (a NaN
  result counts as zero).
\<close>

fun cmp_before :: "jsnum \<Rightarrow> bool" where
  "cmp_before (Fin r) = (r \<le> 0)"
| "cmp_before NegInf = True"
| "cmp_before PosInf = False"
| "cmp_before NaN = True"

fun js_insert :: "('a \<Rightarrow> 'a \<Rightarrow> jsnum) \<Rightarrow> 'a \<Rightarrow> 'a list \<Rightarrow> 'a list" where
  "js_insert cmp x [] = [x]"
| "js_insert cmp x (y # ys) = (if cmp_before (cmp x y) then x # y # ys else y # js_insert cmp x ys)"

definition js_sort :: "('a \<Rightarrow> 'a \<Rightarrow> jsnum) \<Rightarrow> 'a list \<Rightarrow> 'a list" where
  "js_sort cmp xs = foldr (js_insert cmp) xs []"

text \<open>The body of the loop over \<open>Object.entries(tree.nodesById)\<close>, then \<open>rectIndexAll\<close>.\<close>

definition index_step :: "arith \<Rightarrow> string \<times> layer \<Rightarrow> index_item list \<Rightarrow> index_item list" where
  "index_step ar kv items =
     (case getNodeRect (snd kv) of
        None \<Rightarrow> items
      | Some rect \<Rightarrow>
          let area = f_mul ar (rect_width rect) (rect_height rect)
          in if \<not> js_isFinite area \<or> js_le area (Fin 0) then items
             else items @ [\<lparr>item_id = fst kv, item_rect = rect, item_area = area\<rparr>])"

definition rectIndexAll :: "arith \<Rightarrow> LanhuTree option \<Rightarrow> index_item list option" where
  "rectIndexAll ar tree =
     (case tree of
        None \<Rightarrow> None
      | Some t \<Rightarrow> Some (js_sort (\<lambda>a b. f_sub ar (item_area a) (item_area b))
                               (fold (index_step ar) (nodesById t) [])))"

definition pickCandidatesAtPoint :: "arith \<Rightarrow> index_item list \<Rightarrow> jsnum \<Rightarrow> jsnum \<Rightarrow> string list" where
  "pickCandidatesAtPoint ar rectIndex x y =
     fold (\<lambda>item candidates.
             let r = item_rect item
             in if js_ge x (rect_left r) \<and> js_le x (f_add ar (rect_left r) (rect_width r))
                   \<and> js_ge y (rect_top r) \<and> js_le y (f_add ar (rect_top r) (rect_height r))
                then candidates @ [item_id item] else candidates)
          rectIndex []"

text \<open>\<open>xs.join(sep)\<close> and \<open>xs.indexOf(x)\<close>.\<close>

fun join :: "string \<Rightarrow> string list \<Rightarrow> string" where
  "join sep [] = []"
| "join sep [x] = x"
| "join sep (x # y # ys) = x @ sep @ join sep (y # ys)"

fun indexOf :: "'a list \<Rightarrow> 'a \<Rightarrow> int" where
  "indexOf [] x = - 1"
| "indexOf (y # ys) x = (if y = x then 0 else if indexOf ys x < 0 then - 1 else indexOf ys x + 1)"

text \<open>
  The click handler from the candidate search on, for a click at the point \<open>(x, y)\<close> of the
  view box. The state is the signature kept in \<open>lastPickRef\<close> and the selected id, which
  \<open>onSelect\<close> replaces; a click that hits nothing leaves both alone.
\<close>

record pick_state =
  lastPick :: "string option"
  selectedId :: "string option"

definition onClickSvg :: "arith \<Rightarrow> index_item list \<Rightarrow> jsnum \<Rightarrow> jsnum \<Rightarrow> pick_state \<Rightarrow> pick_state" where
  "onClickSvg ar rectIndex x y st =
     (let candidateIds = pickCandidatesAtPoint ar rectIndex x y
      in if candidateIds = [] then st
         else
           let sig = join ''|'' candidateIds;
               nextId =
                 (case selectedId st of
                    None \<Rightarrow> candidateIds ! 0
                  | Some sel \<Rightarrow>
                      if lastPick st = Some sig \<and> sel \<noteq> [] then
                        (let idx = indexOf candidateIds sel
                         in if 0 \<le> idx \<and> idx < int (length candidateIds) - 1
                            then candidateIds ! nat (idx + 1)
                            else if 0 \<le> idx then candidateIds ! nat idx
                            else candidateIds ! 0)
                      else candidateIds ! 0)
           in \<lparr>lastPick = Some sig, selectedId = Some nextId\<rparr>)"




section \<open>Definitions for stating the claims\<close>

text \<open>
  The ids that the traversal registers below a node, in document order: the node's own id
  and those of its descendants, where an entry that is not an object, or has no id or the
  empty id, contributes nothing, its descendants included. \<open>tree_ids\<close> collects every id
  that the tree mentions outside \<open>nodesById\<close>; \<open>parent_rel\<close> relates an id to the parent
  that \<open>parentById\<close> records for it.
\<close>

fun reg_ids :: "layer \<Rightarrow> string list" where
  "reg_ids (Layer i ls ps) =
     (case i of
        None \<Rightarrow> []
      | Some s \<Rightarrow>
          if s = [] then []
          else s # concat (map (\<lambda>e. case e of NotObject p \<Rightarrow> [] | ObjectEntry l \<Rightarrow> reg_ids l)
                               (case ls of None \<Rightarrow> [] | Some es \<Rightarrow> es)))"

definition entry_ids :: "layer entry \<Rightarrow> string list" where
  "entry_ids e = (case e of NotObject p \<Rightarrow> [] | ObjectEntry l \<Rightarrow> reg_ids l)"

definition document_ids :: "LanhuSketchJson \<Rightarrow> string list" where
  "document_ids sketchJson = entry_ids (artboard sketchJson)"

definition stack_ids :: "work list \<Rightarrow> string list" where
  "stack_ids stack = concat (map (\<lambda>w. concat (map entry_ids (snd w))) stack)"

definition tree_ids :: "LanhuTree \<Rightarrow> string set" where
  "tree_ids t =
     keys (childrenById t) \<union> (\<Union>w \<in> set (childrenById t). set (snd w))
     \<union> keys (parentById t) \<union> {p. \<exists>c. (c, Some p) \<in> set (parentById t)}
     \<union> set (rootIds t)"

definition parent_rel :: "LanhuTree \<Rightarrow> (string \<times> string) set" where
  "parent_rel t = {(c, p). lookup (parentById t) c = Some (Some p)}"

text \<open>
  The loop invariants of \<open>parse_loop\<close>: referential integrity, the forest shape, and the
  absence of the names of \<open>Object.prototype\<close> among the ids still to be registered.
\<close>

definition integ :: "LanhuTree \<times> work list \<Rightarrow> bool" where
  "integ st = (tree_ids (fst st) \<subseteq> keys (nodesById (fst st))
               \<and> keys (parentById (fst st)) = keys (nodesById (fst st))
               \<and> (\<forall>w \<in> set (snd st). fst w \<in> keys (nodesById (fst st)))
               \<and> ''__proto__'' \<notin> set (stack_ids (snd st)))"

definition acyc :: "LanhuTree \<times> work list \<Rightarrow> bool" where
  "acyc st = (acyclic (parent_rel (fst st))
      \<and> Range (parent_rel (fst st)) \<subseteq> keys (parentById (fst st))
      \<and> (\<forall>w \<in> set (snd st). fst w \<in> keys (parentById (fst st)))
      \<and> distinct (stack_ids (snd st))
      \<and> ''__proto__'' \<notin> set (stack_ids (snd st))
      \<and> set (stack_ids (snd st)) \<inter> keys (parentById (fst st)) = {})"

definition safe :: "LanhuTree \<times> work list \<Rightarrow> bool" where
  "safe st = ((\<forall>w \<in> set (snd st). \<not> inherited (fst w))
              \<and> (\<forall>i \<in> set (stack_ids (snd st)). \<not> inherited i))"

text \<open>
  The tree after the registration of the node \<open>node\<close> with the id \<open>i\<close>, other than
  \<open>__proto__\<close>, below the parent \<open>pid\<close>.
\<close>

definition registered :: "LanhuTree \<Rightarrow> string \<Rightarrow> string \<Rightarrow> layer \<Rightarrow> LanhuTree" where
  "registered t pid i node =
     t\<lparr>nodesById := define_own (nodesById t) i node,
       parentById := define_own (parentById t) i (Some pid),
       childrenById := define_own (childrenById t) pid
          ((case lookup (childrenById t) pid of None \<Rightarrow> [] | Some cs \<Rightarrow> cs) @ [i])\<rparr>"

text \<open>
  The rectangle source that resolution uses, the first of \<open>frame\<close>, \<open>realFrame\<close> and
  \<open>combinedFrame\<close> that is present (neither \<open>undefined\<close> nor \<open>null\<close>), and the rectangle of a
  source whose four fields are all finite numbers.
\<close>

definition chosen_source :: "layer \<Rightarrow> jsval option" where
  "chosen_source node =
     List.find (\<lambda>v. \<not> nullish v)
       [node_prop node ''frame'', node_prop node ''realFrame'', node_prop node ''combinedFrame'']"

definition accepted :: "jsval \<Rightarrow> LanhuRect option" where
  "accepted c =
     (case (get_field c ''left'', get_field c ''top'', get_field c ''width'', get_field c ''height'') of
        (Number (Fin l), Number (Fin t), Number (Fin w), Number (Fin h)) \<Rightarrow>
          Some \<lparr>rect_left = Fin l, rect_top = Fin t, rect_width = Fin w, rect_height = Fin h\<rparr>
      | _ \<Rightarrow> None)"

text \<open>
  The keys of an exported node.
\<close>

definition allowlist :: "string list" where
  "allowlist = [''id'', ''name'', ''type'', ''frame'', ''realFrame'', ''combinedFrame'',
     ''transform'', ''opacity'', ''visible'', ''rotation'', ''clipped'', ''isMask'', ''origin'',
     ''radius'', ''style'', ''paths'', ''text'', ''image'', ''sharedStyle'']"

text \<open>
  Example documents and trees: the artboard \<open>A\<close> with the layers \<open>B\<close> (which holds \<open>C\<close>),
  \<open>null\<close> and \<open>D\<close>, and its tree; the tree of a lone artboard \<open>A\<close>, and that tree after the
  registration of a layer \<open>B\<close>.
\<close>

definition small_doc :: LanhuSketchJson where
  "small_doc =
     \<lparr>meta = Null, assets = Null,
      artboard = ObjectEntry (Layer (Some ''A'')
        (Some [ObjectEntry (Layer (Some ''B'') (Some [ObjectEntry (Layer (Some ''C'') None [])]) []),
               NotObject PNull,
               ObjectEntry (Layer (Some ''D'') None [])]) [])\<rparr>"

definition small_tree :: LanhuTree where
  "small_tree =
     \<lparr>nodesById =
        [(''A'', Layer (Some ''A'')
           (Some [ObjectEntry (Layer (Some ''B'') (Some [ObjectEntry (Layer (Some ''C'') None [])]) []),
                  NotObject PNull,
                  ObjectEntry (Layer (Some ''D'') None [])]) []),
         (''B'', Layer (Some ''B'') (Some [ObjectEntry (Layer (Some ''C'') None [])]) []),
         (''D'', Layer (Some ''D'') None []),
         (''C'', Layer (Some ''C'') None [])],
      childrenById = [(''A'', [''B'', ''D'']), (''B'', [''C''])],
      parentById = [(''A'', None), (''B'', Some ''A''), (''D'', Some ''A''), (''C'', Some ''B'')],
      rootIds = [''A''], nodesProto = None, parentProtoNull = False\<rparr>"

definition one_node :: LanhuTree where
  "one_node = \<lparr>nodesById = [(''A'', Layer (Some ''A'') None [])], childrenById = [],
                parentById = [(''A'', None)], rootIds = [''A''],
                nodesProto = None, parentProtoNull = False\<rparr>"

definition two_nodes :: LanhuTree where
  "two_nodes =
     \<lparr>nodesById = [(''A'', Layer (Some ''A'') None []), (''B'', Layer (Some ''B'') None [])],
      childrenById = [(''A'', [''B''])],
      parentById = [(''A'', None), (''B'', Some ''A'')], rootIds = [''A''],
      nodesProto = None, parentProtoNull = False\<rparr>"









text \<open>
  A tree whose \<open>parentById\<close> has no cycle, and records a parent that is not registered.
\<close>

definition looping_tree :: LanhuTree where
  "looping_tree = \<lparr>nodesById = [], childrenById = [],
      parentById = [(''function Object() { [native code] }'', Some ''constructor'')],
      rootIds = [], nodesProto = None, parentProtoNull = False\<rparr>"

text \<open>
  The entries that the geometry index is to contain, in the order of \<open>nodesById\<close>: one for
  every node whose rectangle resolves with a finite area above zero. The order by area,
  and the inclusive containment of a point.
\<close>

definition rect_area :: "arith \<Rightarrow> LanhuRect \<Rightarrow> jsnum" where
  "rect_area ar r = f_mul ar (rect_width r) (rect_height r)"

definition indexable :: "arith \<Rightarrow> layer \<Rightarrow> bool" where
  "indexable ar node =
     (case getNodeRect node of
        None \<Rightarrow> False
      | Some r \<Rightarrow> js_isFinite (rect_area ar r) \<and> js_lt (Fin 0) (rect_area ar r))"

definition geometry_entry :: "arith \<Rightarrow> string \<times> layer \<Rightarrow> index_item" where
  "geometry_entry ar kv =
     \<lparr>item_id = fst kv, item_rect = the (getNodeRect (snd kv)),
      item_area = rect_area ar (the (getNodeRect (snd kv)))\<rparr>"

definition geometry_entries :: "arith \<Rightarrow> LanhuTree \<Rightarrow> index_item list" where
  "geometry_entries ar tree =
     map (geometry_entry ar) (filter (\<lambda>kv. indexable ar (snd kv)) (nodesById tree))"

definition area_le :: "index_item \<Rightarrow> index_item \<Rightarrow> bool" where
  "area_le a b = js_le (item_area a) (item_area b)"

definition contains_point :: "arith \<Rightarrow> LanhuRect \<Rightarrow> jsnum \<Rightarrow> jsnum \<Rightarrow> bool" where
  "contains_point ar r x y =
     (js_le (rect_left r) x \<and> js_le x (f_add ar (rect_left r) (rect_width r))
      \<and> js_le (rect_top r) y \<and> js_le y (f_add ar (rect_top r) (rect_height r)))"

text \<open>
  The comparator of the sort, \<open>a.area - b.area\<close>, has the sign of the comparison of the two
  areas on the entries of a list. The subtraction of doubles has this property on all
  finite doubles: the difference of two finite doubles is zero only when they are equal,
  and rounding keeps its sign.
\<close>

definition difference_sign :: "arith \<Rightarrow> index_item list \<Rightarrow> bool" where
  "difference_sign ar items =
     (\<forall>a \<in> set items. \<forall>b \<in> set items.
        cmp_before (f_sub ar (item_area a) (item_area b)) = js_le (item_area a) (item_area b))"

fun finite_value :: "jsnum \<Rightarrow> real" where
  "finite_value (Fin r) = r"
| "finite_value n = 0"

text \<open>
  An example document: an artboard without rectangle, holding the layer \<open>outer\<close>
  (0, 0, 100, 100) with the child \<open>inner\<close> (10, 10, 20, 20), and a layer without rectangle;
  its tree, and the two entries of its geometry index.
\<close>

definition rect_object :: "real \<Rightarrow> real \<Rightarrow> real \<Rightarrow> real \<Rightarrow> jsval" where
  "rect_object l t w h =
     Object [(''left'', Number (Fin l)), (''top'', Number (Fin t)),
             (''width'', Number (Fin w)), (''height'', Number (Fin h))]"

definition outer_layer :: layer where
  "outer_layer =
     Layer (Some ''outer'')
       (Some [ObjectEntry (Layer (Some ''inner'') None [(''frame'', rect_object 10 10 20 20)])])
       [(''frame'', rect_object 0 0 100 100)]"

definition nested_doc :: LanhuSketchJson where
  "nested_doc =
     \<lparr>meta = Null, assets = Null,
      artboard = ObjectEntry (Layer (Some ''A'')
        (Some [ObjectEntry outer_layer,
               ObjectEntry (Layer (Some ''N'') None [(''name'', String ''no rectangle'')])])
        [])\<rparr>"

definition nested_tree :: LanhuTree where
  "nested_tree =
     \<lparr>nodesById =
        [(''A'', Layer (Some ''A'')
            (Some [ObjectEntry outer_layer,
                   ObjectEntry (Layer (Some ''N'') None [(''name'', String ''no rectangle'')])])
            []),
         (''outer'', outer_layer),
         (''N'', Layer (Some ''N'') None [(''name'', String ''no rectangle'')]),
         (''inner'', Layer (Some ''inner'') None [(''frame'', rect_object 10 10 20 20)])],
      childrenById = [(''A'', [''outer'', ''N'']), (''outer'', [''inner''])],
      parentById = [(''A'', None), (''outer'', Some ''A''), (''N'', Some ''A''),
                    (''inner'', Some ''outer'')],
      rootIds = [''A''], nodesProto = None, parentProtoNull = False\<rparr>"

definition inner_item :: index_item where
  "inner_item = \<lparr>item_id = ''inner'',
     item_rect = \<lparr>rect_left = Fin 10, rect_top = Fin 10, rect_width = Fin 20, rect_height = Fin 20\<rparr>,
     item_area = Fin 400\<rparr>"

definition outer_item :: index_item where
  "outer_item = \<lparr>item_id = ''outer'',
     item_rect = \<lparr>rect_left = Fin 0, rect_top = Fin 0, rect_width = Fin 100, rect_height = Fin 100\<rparr>,
     item_area = Fin 10000\<rparr>"

section \<open>Properties of records\<close>

lemma set_replace_own: "set (replace_own m k v) \<subseteq> insert (k, v) (set m)"
  by (induction m) auto

lemma keys_replace_own: "k \<in> fst ` set m \<Longrightarrow> fst ` set (replace_own m k v) = fst ` set m"
  by (induction m) auto

lemma map_of_replace_own: "k \<in> fst ` set m \<Longrightarrow> map_of (replace_own m k v) = (map_of m)(k \<mapsto> v)"
proof (induction m)
  case Nil
  then show ?case by simp
next
  case (Cons p ps)
  show ?case
  proof (cases "fst p = k")
    case True
    then show ?thesis by (cases p) (auto simp: fun_eq_iff)
  next
    case False
    with Cons.prems have "k \<in> fst ` set ps" by auto
    then have "map_of (replace_own ps k v) = (map_of ps)(k \<mapsto> v)" by (rule Cons.IH)
    with False show ?thesis by (cases p) (auto simp: fun_eq_iff)
  qed
qed

lemma map_of_append_fresh: "k \<notin> fst ` set m \<Longrightarrow> map_of (m @ [(k, v)]) = (map_of m)(k \<mapsto> v)"
  by (induction m) (auto simp: fun_eq_iff)

lemma map_fst_replace_own: "map fst (replace_own m k v) = map fst m"
  by (induction m) auto

lemma set_insert_index: "set (insert_index n k v m) = insert (k, v) (set m)"
  by (induction m) (auto split: option.splits)

lemma map_of_insert_index:
  "k \<notin> fst ` set m \<Longrightarrow> map_of (insert_index n k v m) = (map_of m)(k \<mapsto> v)"
proof (induction m)
  case Nil
  then show ?case by simp
next
  case (Cons p ps)
  then have "fst p \<noteq> k" by auto
  with Cons show ?case by (auto simp: fun_eq_iff split: option.splits)
qed

lemma distinct_insert_index:
  "k \<notin> fst ` set m \<Longrightarrow> distinct (map fst m) \<Longrightarrow> distinct (map fst (insert_index n k v m))"
  by (induction m) (auto simp: set_insert_index split: option.splits)

lemma set_define_own: "set (define_own m k v) \<subseteq> insert (k, v) (set m)"
  using set_replace_own [of m k v]
  by (auto simp: define_own_def set_insert_index split: option.splits)

lemma keys_define_own: "keys (define_own m k v) = insert k (keys m)"
  using keys_replace_own [of k m v]
  by (auto simp: define_own_def keys_def set_insert_index split: option.splits)

lemma map_of_define_own: "map_of (define_own m k v) = (map_of m)(k \<mapsto> v)"
proof (cases "k \<in> fst ` set m")
  case True
  then show ?thesis by (simp add: define_own_def keys_def map_of_replace_own)
next
  case False
  then show ?thesis
    by (cases "array_index k")
       (simp_all add: define_own_def keys_def map_of_insert_index map_of_append_fresh
          del: map_of_append)
qed

lemma lookup_define_own: "lookup (define_own m k v) k' = (if k' = k then Some v else lookup m k')"
  by (simp add: lookup_def map_of_define_own)

lemma distinct_define_own: "distinct (map fst m) \<Longrightarrow> distinct (map fst (define_own m k v))"
  by (auto simp: define_own_def keys_def map_fst_replace_own distinct_insert_index split: option.splits)

lemma lookup_keys: "lookup m k = Some v \<Longrightarrow> k \<in> keys m"
  by (auto simp: lookup_def keys_def dest: map_of_SomeD intro: rev_image_eqI)

lemma lookup_in_set: "lookup m k = Some v \<Longrightarrow> (k, v) \<in> set m"
  by (simp add: lookup_def map_of_SomeD)

lemma lookup_None: "k \<notin> keys m \<Longrightarrow> lookup m k = None"
  by (simp add: lookup_def keys_def map_of_eq_None_iff)

section \<open>The traversal on ids other than \<open>__proto__\<close>\<close>

lemma reg_ids_cases:
  "reg_ids node =
     (case layer_id node of
        None \<Rightarrow> []
      | Some s \<Rightarrow> if s = [] then []
                  else s # concat (map entry_ids (case layer_layers node of None \<Rightarrow> [] | Some es \<Rightarrow> es)))"
proof -
  have "(\<lambda>e. case e of NotObject p \<Rightarrow> [] | ObjectEntry l \<Rightarrow> reg_ids l) = entry_ids"
    by (rule ext) (simp add: entry_ids_def)
  then show ?thesis by (cases node) (simp split: option.splits)
qed

lemma stack_ids_push_layers:
  "stack_ids (push_layers i node stack)
     = concat (map entry_ids (case layer_layers node of None \<Rightarrow> [] | Some es \<Rightarrow> es)) @ stack_ids stack"
  by (simp add: push_layers_def stack_ids_def split: option.splits list.splits)

lemma stack_ids_Cons:
  "stack_ids ((pid, ns) # stack) = concat (map entry_ids ns) @ stack_ids stack"
  by (simp add: stack_ids_def)

lemma push_child_Inr:
  "push_child cb pid i = Inr cb'
   \<Longrightarrow> cb' = define_own cb pid ((case lookup cb pid of None \<Rightarrow> [] | Some cs \<Rightarrow> cs) @ [i])"
  by (auto simp: push_child_def split: option.splits if_splits)

lemma visit_cases:
  assumes "visit pid e (t, stack) = Inr st'"
  shows "(st' = (t, stack) \<and> entry_ids e = [])
       \<or> (\<exists>node i. e = ObjectEntry node \<and> layer_id node = Some i \<and> i \<noteq> []
             \<and> entry_ids e = i # concat (map entry_ids
                                   (case layer_layers node of None \<Rightarrow> [] | Some es \<Rightarrow> es))
             \<and> (i \<noteq> ''__proto__'' \<longrightarrow> st' = (registered t pid i node, push_layers i node stack)))"
proof (cases e)
  case (NotObject p)
  with assms show ?thesis by (auto simp: entry_ids_def)
next
  case (ObjectEntry node)
  show ?thesis
  proof (cases "layer_id node")
    case None
    with assms ObjectEntry show ?thesis by (auto simp: entry_ids_def reg_ids_cases)
  next
    case (Some i)
    show ?thesis
    proof (cases "i = []")
      case True
      with assms ObjectEntry Some show ?thesis by (auto simp: entry_ids_def reg_ids_cases)
    next
      case False
      from assms ObjectEntry Some False obtain cb where
        cb: "push_child (childrenById t) pid i = Inr cb"
        and st': "st' = ((set_parent (set_node t i node) i (Some pid))\<lparr>childrenById := cb\<rparr>,
                        push_layers i node stack)"
        by (auto split: sum.splits)
      have "st' = (registered t pid i node, push_layers i node stack)" if "i \<noteq> ''__proto__''"
        using that st' push_child_Inr [OF cb]
        by (simp add: registered_def set_node_def set_parent_def)
      with ObjectEntry Some False show ?thesis
        by (simp add: entry_ids_def reg_ids_cases)
    qed
  qed
qed

lemma visit_no_throw:
  assumes "\<not> inherited pid"
  shows "\<exists>st'. visit pid e (t, stack) = Inr st'"
  using assms
  by (cases e) (auto simp: push_child_def split: option.splits)

section \<open>Referential integrity\<close>

lemma tree_ids_registered:
  assumes "tree_ids t \<subseteq> keys (nodesById t)" and "pid \<in> keys (nodesById t)"
  shows "tree_ids (registered t pid i node) \<subseteq> insert i (keys (nodesById t))"
proof -
  let ?old = "case lookup (childrenById t) pid of None \<Rightarrow> [] | Some cs \<Rightarrow> cs"
  let ?cb = "define_own (childrenById t) pid (?old @ [i])"
  let ?pb = "define_own (parentById t) i (Some pid)"
  have k1: "keys ?cb \<subseteq> insert i (keys (nodesById t))"
    using assms by (auto simp: keys_define_own tree_ids_def)
  have old: "set ?old \<subseteq> keys (nodesById t)"
  proof (cases "lookup (childrenById t) pid")
    case None
    then show ?thesis by simp
  next
    case (Some cs)
    then have "(pid, cs) \<in> set (childrenById t)" by (rule lookup_in_set)
    then have "set cs \<subseteq> keys (nodesById t)"
      using assms(1) by (force simp: tree_ids_def)
    with Some show ?thesis by simp
  qed
  have k2: "(\<Union>w \<in> set ?cb. set (snd w)) \<subseteq> insert i (keys (nodesById t))"
  proof
    fix x assume "x \<in> (\<Union>w \<in> set ?cb. set (snd w))"
    then obtain w where w: "w \<in> set ?cb" "x \<in> set (snd w)" by blast
    from w(1) have "w = (pid, ?old @ [i]) \<or> w \<in> set (childrenById t)"
      using set_define_own [of "childrenById t" pid "?old @ [i]"] by blast
    then show "x \<in> insert i (keys (nodesById t))"
    proof
      assume "w \<in> set (childrenById t)"
      with w(2) assms(1) show ?thesis by (auto simp: tree_ids_def)
    next
      assume "w = (pid, ?old @ [i])"
      with w(2) old show ?thesis by auto
    qed
  qed
  have k3: "keys ?pb \<subseteq> insert i (keys (nodesById t))"
    using assms by (auto simp: keys_define_own tree_ids_def)
  have k4: "{p. \<exists>c. (c, Some p) \<in> set ?pb} \<subseteq> insert i (keys (nodesById t))"
  proof
    fix p assume "p \<in> {p. \<exists>c. (c, Some p) \<in> set ?pb}"
    then obtain c where "(c, Some p) \<in> set ?pb" by blast
    then have "(c, Some p) = (i, Some pid) \<or> (c, Some p) \<in> set (parentById t)"
      using set_define_own [of "parentById t" i "Some pid"] by blast
    then show "p \<in> insert i (keys (nodesById t))"
      using assms by (auto simp: tree_ids_def)
  qed
  have k5: "set (rootIds t) \<subseteq> insert i (keys (nodesById t))"
    using assms by (auto simp: tree_ids_def)
  show ?thesis
    using k1 k2 k3 k4 k5 by (simp add: tree_ids_def registered_def)
qed

lemma integ_visit:
  assumes "integ (t, (pid, e # ns) # stack)" and "visit pid e (t, stack) = Inr st'"
  shows "integ (fst st', (pid, ns) # snd st')"
proof -
  from assms(1) have a: "tree_ids t \<subseteq> keys (nodesById t)" "pid \<in> keys (nodesById t)"
    "\<forall>w \<in> set stack. fst w \<in> keys (nodesById t)"
    and k: "keys (parentById t) = keys (nodesById t)"
    and p: "''__proto__'' \<notin> set (entry_ids e @ concat (map entry_ids ns) @ stack_ids stack)"
    by (simp_all add: integ_def stack_ids_Cons)
  from visit_cases [OF assms(2)] show ?thesis
  proof
    assume "st' = (t, stack) \<and> entry_ids e = []"
    with a k p show ?thesis by (simp add: integ_def stack_ids_Cons)
  next
    assume "\<exists>node i. e = ObjectEntry node \<and> layer_id node = Some i \<and> i \<noteq> []
             \<and> entry_ids e = i # concat (map entry_ids
                                   (case layer_layers node of None \<Rightarrow> [] | Some es \<Rightarrow> es))
             \<and> (i \<noteq> ''__proto__'' \<longrightarrow> st' = (registered t pid i node, push_layers i node stack))"
    then obtain node i where e: "e = ObjectEntry node"
      and ids: "entry_ids e = i # concat (map entry_ids
                                   (case layer_layers node of None \<Rightarrow> [] | Some es \<Rightarrow> es))"
      and st: "i \<noteq> ''__proto__'' \<longrightarrow> st' = (registered t pid i node, push_layers i node stack)"
      by blast
    from p ids have "i \<noteq> ''__proto__''" by auto
    with st have st': "st' = (registered t pid i node, push_layers i node stack)" by simp
    have K: "keys (nodesById (registered t pid i node)) = insert i (keys (nodesById t))"
      by (simp add: registered_def keys_define_own)
    have c1: "tree_ids (registered t pid i node) \<subseteq> keys (nodesById (registered t pid i node))"
      unfolding K by (rule tree_ids_registered [OF a(1) a(2)])
    have c2: "\<forall>w \<in> set ((pid, ns) # push_layers i node stack).
                 fst w \<in> keys (nodesById (registered t pid i node))"
      unfolding K using a(2,3) by (auto simp: push_layers_def split: option.splits list.splits)
    have c3: "''__proto__'' \<notin> set (stack_ids ((pid, ns) # push_layers i node stack))"
      using p ids by (auto simp: stack_ids_Cons stack_ids_push_layers)
    have c4: "keys (parentById (registered t pid i node)) = keys (nodesById (registered t pid i node))"
      using k by (simp add: registered_def keys_define_own)
    show ?thesis
      unfolding st' integ_def fst_conv snd_conv using c1 c2 c3 c4 by blast
  qed
qed

lemma integ_visit_all:
  "integ (t, (pid, ns) # stack) \<Longrightarrow> visit_all pid ns (t, stack) = Inr st' \<Longrightarrow> integ st'"
proof (induction ns arbitrary: t stack)
  case Nil
  then have "st' = (t, stack)" by simp
  with Nil.prems(1) show ?case by (simp add: integ_def stack_ids_Cons)
next
  case (Cons e ns)
  from Cons.prems(2) obtain st1 where v: "visit pid e (t, stack) = Inr st1"
    and r: "visit_all pid ns st1 = Inr st'"
    by (auto split: sum.splits)
  obtain t1 stack1 where st1: "st1 = (t1, stack1)" by (cases st1)
  from integ_visit [OF Cons.prems(1) v] st1 have "integ (t1, (pid, ns) # stack1)" by simp
  then show ?case using r st1 Cons.IH by blast
qed

lemma integ_parse_loop:
  "integ st \<Longrightarrow> parse_loop st = Inr t
   \<Longrightarrow> tree_ids t \<subseteq> keys (nodesById t) \<and> keys (parentById t) = keys (nodesById t)"
proof (induction st rule: parse_loop.induct)
  case (1 t0)
  then show ?case by (simp add: integ_def)
next
  case (2 t0 parentId nodes stack)
  from "2.prems"(2) obtain st1 where v: "visit_all parentId nodes (t0, stack) = Inr st1"
    and r: "parse_loop st1 = Inr t"
    by (auto split: sum.splits)
  from integ_visit_all [OF "2.prems"(1) v] have "integ st1" .
  then show ?case using "2.IH" [OF v] r by blast
qed

lemma root_state:
  assumes "rootId \<noteq> ''__proto__''"
  shows "set_node (set_parent (empty_tree\<lparr>rootIds := [rootId]\<rparr>) rootId None) rootId ab
       = \<lparr>nodesById = [(rootId, ab)], childrenById = [], parentById = [(rootId, None)],
          rootIds = [rootId], nodesProto = None, parentProtoNull = False\<rparr>"
  using assms
  by (simp add: set_node_def set_parent_def empty_tree_def define_own_def keys_def
           split: option.splits)

lemma parse_cases:
  "parseLanhuTree sketchJson = Inr empty_tree \<and> document_ids sketchJson = []
   \<or> (\<exists>ab rootId. artboard sketchJson = ObjectEntry ab \<and> layer_id ab = Some rootId \<and> rootId \<noteq> []
        \<and> document_ids sketchJson
             = rootId # concat (map entry_ids (case layer_layers ab of None \<Rightarrow> [] | Some es \<Rightarrow> es))
        \<and> parseLanhuTree sketchJson
             = parse_loop (set_node (set_parent (empty_tree\<lparr>rootIds := [rootId]\<rparr>) rootId None) rootId ab,
                           push_layers rootId ab []))"
  by (auto simp: parseLanhuTree_def document_ids_def entry_ids_def reg_ids_cases
           split: entry.splits option.splits)

lemma integ_parseLanhuTree:
  assumes "parseLanhuTree sketchJson = Inr t" and "''__proto__'' \<notin> set (document_ids sketchJson)"
  shows "tree_ids t \<subseteq> keys (nodesById t) \<and> keys (parentById t) = keys (nodesById t)"
  using parse_cases [of sketchJson]
proof
  assume "parseLanhuTree sketchJson = Inr empty_tree \<and> document_ids sketchJson = []"
  with assms(1) show ?thesis by (auto simp: empty_tree_def tree_ids_def keys_def)
next
  assume "\<exists>ab rootId. artboard sketchJson = ObjectEntry ab \<and> layer_id ab = Some rootId \<and> rootId \<noteq> []
        \<and> document_ids sketchJson
             = rootId # concat (map entry_ids (case layer_layers ab of None \<Rightarrow> [] | Some es \<Rightarrow> es))
        \<and> parseLanhuTree sketchJson
             = parse_loop (set_node (set_parent (empty_tree\<lparr>rootIds := [rootId]\<rparr>) rootId None) rootId ab,
                           push_layers rootId ab [])"
  then obtain ab rootId where
    ids: "document_ids sketchJson
             = rootId # concat (map entry_ids (case layer_layers ab of None \<Rightarrow> [] | Some es \<Rightarrow> es))"
    and p: "parseLanhuTree sketchJson
             = parse_loop (set_node (set_parent (empty_tree\<lparr>rootIds := [rootId]\<rparr>) rootId None) rootId ab,
                           push_layers rootId ab [])"
    by blast
  from assms(2) ids have r: "rootId \<noteq> ''__proto__''"
    and sub: "''__proto__'' \<notin> set (concat (map entry_ids (case layer_layers ab of None \<Rightarrow> [] | Some es \<Rightarrow> es)))"
    by auto
  let ?t0 = "\<lparr>nodesById = [(rootId, ab)], childrenById = [], parentById = [(rootId, None)],
          rootIds = [rootId], nodesProto = None, parentProtoNull = False\<rparr>"
  have "integ (?t0, push_layers rootId ab [])"
    unfolding integ_def fst_conv snd_conv stack_ids_push_layers
    using sub by (auto simp: tree_ids_def keys_def push_layers_def stack_ids_def
                       split: option.splits list.splits)
  moreover have "parse_loop (?t0, push_layers rootId ab []) = Inr t"
    using assms(1) p root_state [OF r] by simp
  ultimately show ?thesis by (rule integ_parse_loop)
qed

section \<open>The forest shape\<close>

lemma acyclic_empty_rel: "acyclic {}"
  by (simp add: acyclic_def)

lemma parent_rel_registered:
  assumes "i \<notin> keys (parentById t)"
  shows "parent_rel (registered t pid i node) = insert (i, pid) (parent_rel t)"
  using lookup_None [OF assms]
  by (auto simp: parent_rel_def registered_def lookup_define_own split: if_splits)

lemma acyclic_fresh:
  assumes "acyclic r" and "Range r \<subseteq> K" and "pid \<in> K" and "i \<notin> K"
  shows "acyclic (insert (i, pid) r)"
proof -
  have "(pid, i) \<notin> r\<^sup>*"
  proof
    assume "(pid, i) \<in> r\<^sup>*"
    then show False
    proof (cases rule: rtranclE)
      case base
      with assms(3,4) show False by simp
    next
      case (step z)
      then have "i \<in> Range r" by blast
      with assms(2,4) show False by blast
    qed
  qed
  with assms(1) show ?thesis by simp
qed

lemma distinct_reorder:
  "distinct ((i # s) @ n @ k) \<Longrightarrow> distinct (n @ s @ k)"
  by auto

lemma disjoint_reorder:
  "distinct ((i # s) @ n @ k) \<Longrightarrow> set ((i # s) @ n @ k) \<inter> K = {}
     \<Longrightarrow> set (n @ s @ k) \<inter> insert i K = {}"
  by auto

lemma acyc_visit:
  assumes "acyc (t, (pid, e # ns) # stack)" and "visit pid e (t, stack) = Inr st'"
  shows "acyc (fst st', (pid, ns) # snd st')"
proof -
  let ?K = "keys (parentById t)"
  from assms(1) have a: "acyclic (parent_rel t)" "Range (parent_rel t) \<subseteq> ?K" "pid \<in> ?K"
    "\<forall>w \<in> set stack. fst w \<in> ?K"
    and d: "distinct (entry_ids e @ concat (map entry_ids ns) @ stack_ids stack)"
    and p: "''__proto__'' \<notin> set (entry_ids e @ concat (map entry_ids ns) @ stack_ids stack)"
    and j: "set (entry_ids e @ concat (map entry_ids ns) @ stack_ids stack) \<inter> ?K = {}"
    by (simp_all add: acyc_def stack_ids_Cons)
  from visit_cases [OF assms(2)] show ?thesis
  proof
    assume s: "st' = (t, stack) \<and> entry_ids e = []"
    then have c: "distinct (stack_ids ((pid, ns) # stack))"
        "''__proto__'' \<notin> set (stack_ids ((pid, ns) # stack))"
        "set (stack_ids ((pid, ns) # stack)) \<inter> ?K = {}"
      using d p j by (simp_all add: stack_ids_Cons)
    from s have st': "st' = (t, stack)" by simp
    show ?thesis
      unfolding st' acyc_def fst_conv snd_conv using a c by simp
  next
    assume "\<exists>node i. e = ObjectEntry node \<and> layer_id node = Some i \<and> i \<noteq> []
             \<and> entry_ids e = i # concat (map entry_ids
                                   (case layer_layers node of None \<Rightarrow> [] | Some es \<Rightarrow> es))
             \<and> (i \<noteq> ''__proto__'' \<longrightarrow> st' = (registered t pid i node, push_layers i node stack))"
    then obtain node i where
      ids: "entry_ids e = i # concat (map entry_ids
                                   (case layer_layers node of None \<Rightarrow> [] | Some es \<Rightarrow> es))"
      and st: "i \<noteq> ''__proto__'' \<longrightarrow> st' = (registered t pid i node, push_layers i node stack)"
      by blast
    let ?sub = "concat (map entry_ids (case layer_layers node of None \<Rightarrow> [] | Some es \<Rightarrow> es))"
    from p ids have "i \<noteq> ''__proto__''" by auto
    with st have st': "st' = (registered t pid i node, push_layers i node stack)" by simp
    from j ids have fresh: "i \<notin> ?K" by auto
    let ?t' = "registered t pid i node"
    have rel: "parent_rel ?t' = insert (i, pid) (parent_rel t)"
      by (rule parent_rel_registered [OF fresh])
    have K': "keys (parentById ?t') = insert i ?K"
      by (simp add: registered_def keys_define_own)
    have c1: "acyclic (parent_rel ?t')"
      unfolding rel by (rule acyclic_fresh [OF a(1) a(2) a(3) fresh])
    have c2: "Range (parent_rel ?t') \<subseteq> keys (parentById ?t')"
      unfolding rel K' using a(2,3) by auto
    have c3: "\<forall>w \<in> set ((pid, ns) # push_layers i node stack). fst w \<in> keys (parentById ?t')"
      unfolding K' using a(3,4) by (auto simp: push_layers_def split: option.splits list.splits)
    have sid: "stack_ids ((pid, ns) # push_layers i node stack)
                 = concat (map entry_ids ns) @ ?sub @ stack_ids stack"
      by (simp add: stack_ids_Cons stack_ids_push_layers)
    have d': "distinct ((i # ?sub) @ concat (map entry_ids ns) @ stack_ids stack)"
      using d unfolding ids .
    have j': "set ((i # ?sub) @ concat (map entry_ids ns) @ stack_ids stack) \<inter> ?K = {}"
      using j unfolding ids .
    have c4: "distinct (stack_ids ((pid, ns) # push_layers i node stack))"
      unfolding sid by (rule distinct_reorder [OF d'])
    have c5: "set (stack_ids ((pid, ns) # push_layers i node stack)) \<inter> keys (parentById ?t') = {}"
      unfolding sid K' by (rule disjoint_reorder [OF d' j'])
    have c6: "''__proto__'' \<notin> set (stack_ids ((pid, ns) # push_layers i node stack))"
      unfolding sid using p ids by auto
    show ?thesis
      unfolding st' acyc_def fst_conv snd_conv using c1 c2 c3 c4 c5 c6 by blast
  qed
qed

lemma acyc_visit_all:
  "acyc (t, (pid, ns) # stack) \<Longrightarrow> visit_all pid ns (t, stack) = Inr st' \<Longrightarrow> acyc st'"
proof (induction ns arbitrary: t stack)
  case Nil
  then have "st' = (t, stack)" by simp
  with Nil.prems(1) show ?case by (simp add: acyc_def stack_ids_Cons)
next
  case (Cons e ns)
  from Cons.prems(2) obtain st1 where v: "visit pid e (t, stack) = Inr st1"
    and r: "visit_all pid ns st1 = Inr st'"
    by (auto split: sum.splits)
  obtain t1 stack1 where st1: "st1 = (t1, stack1)" by (cases st1)
  from acyc_visit [OF Cons.prems(1) v] st1 have "acyc (t1, (pid, ns) # stack1)" by simp
  then show ?case using r st1 Cons.IH by blast
qed

lemma acyc_parse_loop:
  "acyc st \<Longrightarrow> parse_loop st = Inr t
   \<Longrightarrow> acyclic (parent_rel t) \<and> Range (parent_rel t) \<subseteq> keys (parentById t)"
proof (induction st rule: parse_loop.induct)
  case (1 t0)
  then show ?case by (simp add: acyc_def)
next
  case (2 t0 parentId nodes stack)
  from "2.prems"(2) obtain st1 where v: "visit_all parentId nodes (t0, stack) = Inr st1"
    and r: "parse_loop st1 = Inr t"
    by (auto split: sum.splits)
  from acyc_visit_all [OF "2.prems"(1) v] have "acyc st1" .
  then show ?case using "2.IH" [OF v] r by blast
qed

lemma acyc_parseLanhuTree:
  assumes "parseLanhuTree sketchJson = Inr t" and "''__proto__'' \<notin> set (document_ids sketchJson)"
    and "distinct (document_ids sketchJson)"
  shows "acyclic (parent_rel t)"
  using parse_cases [of sketchJson]
proof
  assume "parseLanhuTree sketchJson = Inr empty_tree \<and> document_ids sketchJson = []"
  with assms(1) show ?thesis
    by (auto simp: empty_tree_def parent_rel_def lookup_def acyclic_def)
next
  assume "\<exists>ab rootId. artboard sketchJson = ObjectEntry ab \<and> layer_id ab = Some rootId \<and> rootId \<noteq> []
        \<and> document_ids sketchJson
             = rootId # concat (map entry_ids (case layer_layers ab of None \<Rightarrow> [] | Some es \<Rightarrow> es))
        \<and> parseLanhuTree sketchJson
             = parse_loop (set_node (set_parent (empty_tree\<lparr>rootIds := [rootId]\<rparr>) rootId None) rootId ab,
                           push_layers rootId ab [])"
  then obtain ab rootId where
    ids: "document_ids sketchJson
             = rootId # concat (map entry_ids (case layer_layers ab of None \<Rightarrow> [] | Some es \<Rightarrow> es))"
    and p: "parseLanhuTree sketchJson
             = parse_loop (set_node (set_parent (empty_tree\<lparr>rootIds := [rootId]\<rparr>) rootId None) rootId ab,
                           push_layers rootId ab [])"
    by blast
  let ?sub = "concat (map entry_ids (case layer_layers ab of None \<Rightarrow> [] | Some es \<Rightarrow> es))"
  from assms(2,3) ids have r: "rootId \<noteq> ''__proto__''"
    and sub: "''__proto__'' \<notin> set ?sub" "distinct ?sub" "rootId \<notin> set ?sub"
    by auto
  let ?t0 = "\<lparr>nodesById = [(rootId, ab)], childrenById = [], parentById = [(rootId, None)],
          rootIds = [rootId], nodesProto = None, parentProtoNull = False\<rparr>"
  have rel: "parent_rel ?t0 = {}"
    by (auto simp: parent_rel_def lookup_def)
  have "acyc (?t0, push_layers rootId ab [])"
    unfolding acyc_def fst_conv snd_conv stack_ids_push_layers rel
    using sub by (auto simp: acyclic_empty_rel keys_def push_layers_def stack_ids_def
                       split: option.splits list.splits)
  moreover have "parse_loop (?t0, push_layers rootId ab []) = Inr t"
    using assms(1) p root_state [OF r] by simp
  ultimately show ?thesis using acyc_parse_loop by blast
qed

section \<open>Documents on which the traversal does not throw\<close>

lemma safe_visit:
  assumes "safe (t, (pid, e # ns) # stack)"
  shows "\<exists>st'. visit pid e (t, stack) = Inr st' \<and> safe (fst st', (pid, ns) # snd st')"
proof -
  from assms have np: "\<not> inherited pid" and ns: "\<forall>w \<in> set stack. \<not> inherited (fst w)"
    and ids: "\<forall>i \<in> set (entry_ids e @ concat (map entry_ids ns) @ stack_ids stack). \<not> inherited i"
    by (simp_all add: safe_def stack_ids_Cons)
  from visit_no_throw [OF np] obtain st' where v: "visit pid e (t, stack) = Inr st'" by blast
  obtain t' stack' where st': "st' = (t', stack')" by (cases st')
  have "safe (t', (pid, ns) # stack')"
  proof (cases e)
    case (NotObject p)
    with v st' have "stack' = stack" by simp
    with np ns ids show ?thesis by (simp add: safe_def stack_ids_Cons)
  next
    case (ObjectEntry node)
    show ?thesis
    proof (cases "layer_id node = None \<or> layer_id node = Some []")
      case True
      with v st' ObjectEntry have "stack' = stack" by auto
      with np ns ids show ?thesis by (simp add: safe_def stack_ids_Cons)
    next
      case False
      then obtain i where i: "layer_id node = Some i" "i \<noteq> []" by auto
      with v st' ObjectEntry have s: "stack' = push_layers i node stack"
        by (auto split: sum.splits)
      have eid: "entry_ids e = i # concat (map entry_ids
                                   (case layer_layers node of None \<Rightarrow> [] | Some es \<Rightarrow> es))"
        using ObjectEntry i by (simp add: entry_ids_def reg_ids_cases)
      from ids eid have ni: "\<not> inherited i" by simp
      have c1: "\<forall>w \<in> set ((pid, ns) # push_layers i node stack). \<not> inherited (fst w)"
        using np ns ni by (auto simp: push_layers_def split: option.splits list.splits)
      have c2: "\<forall>k \<in> set (stack_ids ((pid, ns) # push_layers i node stack)). \<not> inherited k"
        using ids eid by (auto simp: stack_ids_Cons stack_ids_push_layers)
      show ?thesis unfolding s safe_def fst_conv snd_conv using c1 c2 by blast
    qed
  qed
  with v st' show ?thesis by simp
qed

lemma safe_visit_all:
  "safe (t, (pid, ns) # stack) \<Longrightarrow> \<exists>st'. visit_all pid ns (t, stack) = Inr st' \<and> safe st'"
proof (induction ns arbitrary: t stack)
  case Nil
  then show ?case by (simp add: safe_def stack_ids_Cons)
next
  case (Cons e ns)
  from safe_visit [OF Cons.prems] obtain st1 where
    v: "visit pid e (t, stack) = Inr st1" and s: "safe (fst st1, (pid, ns) # snd st1)" by blast
  obtain t1 stack1 where st1: "st1 = (t1, stack1)" by (cases st1)
  from s st1 Cons.IH obtain st' where "visit_all pid ns (t1, stack1) = Inr st'" "safe st'"
    by fastforce
  with v st1 show ?case by simp
qed

lemma safe_parse_loop: "safe st \<Longrightarrow> \<exists>t. parse_loop st = Inr t"
proof (induction st rule: parse_loop.induct)
  case (1 t0)
  then show ?case by simp
next
  case (2 t0 parentId nodes stack)
  from safe_visit_all [OF "2.prems"] obtain st1 where
    v: "visit_all parentId nodes (t0, stack) = Inr st1" and s: "safe st1" by blast
  from "2.IH" [OF v s] v show ?case by simp
qed

lemma safe_parseLanhuTree:
  assumes "\<forall>i \<in> set (document_ids sketchJson). \<not> inherited i"
  shows "\<exists>t. parseLanhuTree sketchJson = Inr t"
  using parse_cases [of sketchJson]
proof
  assume "parseLanhuTree sketchJson = Inr empty_tree \<and> document_ids sketchJson = []"
  then show ?thesis by blast
next
  assume "\<exists>ab rootId. artboard sketchJson = ObjectEntry ab \<and> layer_id ab = Some rootId \<and> rootId \<noteq> []
        \<and> document_ids sketchJson
             = rootId # concat (map entry_ids (case layer_layers ab of None \<Rightarrow> [] | Some es \<Rightarrow> es))
        \<and> parseLanhuTree sketchJson
             = parse_loop (set_node (set_parent (empty_tree\<lparr>rootIds := [rootId]\<rparr>) rootId None) rootId ab,
                           push_layers rootId ab [])"
  then obtain ab rootId where
    ids: "document_ids sketchJson
             = rootId # concat (map entry_ids (case layer_layers ab of None \<Rightarrow> [] | Some es \<Rightarrow> es))"
    and p: "parseLanhuTree sketchJson
             = parse_loop (set_node (set_parent (empty_tree\<lparr>rootIds := [rootId]\<rparr>) rootId None) rootId ab,
                           push_layers rootId ab [])"
    by blast
  let ?sub = "concat (map entry_ids (case layer_layers ab of None \<Rightarrow> [] | Some es \<Rightarrow> es))"
  from assms ids have r: "\<not> inherited rootId" and sub: "\<forall>i \<in> set ?sub. \<not> inherited i"
    by auto
  have "safe (set_node (set_parent (empty_tree\<lparr>rootIds := [rootId]\<rparr>) rootId None) rootId ab,
              push_layers rootId ab [])"
    unfolding safe_def fst_conv snd_conv stack_ids_push_layers
    using r sub by (auto simp: push_layers_def stack_ids_def split: option.splits list.splits)
  from safe_parse_loop [OF this] p show ?thesis by simp
qed

section \<open>The keys of \<open>nodesById\<close>\<close>

lemma set_node_keys:
  assumes "distinct (map fst (nodesById t))" and "[] \<notin> keys (nodesById t)" and "i \<noteq> []"
  shows "distinct (map fst (nodesById (set_node t i node)))
         \<and> [] \<notin> keys (nodesById (set_node t i node))"
  using assms by (auto simp: set_node_def distinct_define_own keys_define_own)

lemma visit_keys:
  assumes "distinct (map fst (nodesById t))" and "[] \<notin> keys (nodesById t)"
    and "visit pid e (t, stack) = Inr st'"
  shows "distinct (map fst (nodesById (fst st'))) \<and> [] \<notin> keys (nodesById (fst st'))"
proof (cases e)
  case (NotObject p)
  with assms show ?thesis by auto
next
  case (ObjectEntry node)
  show ?thesis
  proof (cases "layer_id node = None \<or> layer_id node = Some []")
    case True
    with assms ObjectEntry show ?thesis by auto
  next
    case False
    then obtain i where i: "layer_id node = Some i" "i \<noteq> []" by auto
    with assms(3) ObjectEntry obtain cb where
      "st' = ((set_parent (set_node t i node) i (Some pid))\<lparr>childrenById := cb\<rparr>,
              push_layers i node stack)"
      by (auto split: sum.splits)
    then have "nodesById (fst st') = nodesById (set_node t i node)"
      by (simp add: set_parent_def split: option.splits)
    with set_node_keys [OF assms(1,2) i(2), of node] show ?thesis by simp
  qed
qed

lemma visit_all_keys:
  "distinct (map fst (nodesById (fst st))) \<and> [] \<notin> keys (nodesById (fst st))
   \<Longrightarrow> visit_all pid ns st = Inr st'
   \<Longrightarrow> distinct (map fst (nodesById (fst st'))) \<and> [] \<notin> keys (nodesById (fst st'))"
proof (induction ns arbitrary: st)
  case Nil
  then show ?case by simp
next
  case (Cons e ns)
  obtain t stack where st: "st = (t, stack)" by (cases st)
  from Cons.prems(2) obtain st1 where v: "visit pid e st = Inr st1"
    and r: "visit_all pid ns st1 = Inr st'"
    by (auto split: sum.splits)
  from Cons.prems(1) st v have "distinct (map fst (nodesById (fst st1))) \<and> [] \<notin> keys (nodesById (fst st1))"
    using visit_keys [of t pid e stack st1] by simp
  then show ?case using r by (rule Cons.IH)
qed

lemma parse_loop_keys:
  "distinct (map fst (nodesById (fst st))) \<and> [] \<notin> keys (nodesById (fst st))
   \<Longrightarrow> parse_loop st = Inr t
   \<Longrightarrow> distinct (map fst (nodesById t)) \<and> [] \<notin> keys (nodesById t)"
proof (induction st rule: parse_loop.induct)
  case (1 t0)
  then show ?case by simp
next
  case (2 t0 parentId nodes stack)
  from "2.prems"(2) obtain st1 where v: "visit_all parentId nodes (t0, stack) = Inr st1"
    and r: "parse_loop st1 = Inr t"
    by (auto split: sum.splits)
  from "2.prems"(1)
  have "distinct (map fst (nodesById (fst (t0, stack)))) \<and> [] \<notin> keys (nodesById (fst (t0, stack)))"
    by simp
  then have "distinct (map fst (nodesById (fst st1))) \<and> [] \<notin> keys (nodesById (fst st1))"
    using v by (rule visit_all_keys)
  then show ?case using "2.IH" [OF v] r by blast
qed

lemma parseLanhuTree_keys:
  assumes "parseLanhuTree sketchJson = Inr t"
  shows "distinct (map fst (nodesById t)) \<and> [] \<notin> keys (nodesById t)"
  using parse_cases [of sketchJson]
proof
  assume "parseLanhuTree sketchJson = Inr empty_tree \<and> document_ids sketchJson = []"
  with assms show ?thesis by (auto simp: empty_tree_def keys_def)
next
  assume "\<exists>ab rootId. artboard sketchJson = ObjectEntry ab \<and> layer_id ab = Some rootId \<and> rootId \<noteq> []
        \<and> document_ids sketchJson
             = rootId # concat (map entry_ids (case layer_layers ab of None \<Rightarrow> [] | Some es \<Rightarrow> es))
        \<and> parseLanhuTree sketchJson
             = parse_loop (set_node (set_parent (empty_tree\<lparr>rootIds := [rootId]\<rparr>) rootId None) rootId ab,
                           push_layers rootId ab [])"
  then obtain ab rootId where r: "rootId \<noteq> []"
    and p: "parseLanhuTree sketchJson
             = parse_loop (set_node (set_parent (empty_tree\<lparr>rootIds := [rootId]\<rparr>) rootId None) rootId ab,
                           push_layers rootId ab [])"
    by blast
  let ?t1 = "set_parent (empty_tree\<lparr>rootIds := [rootId]\<rparr>) rootId None"
  have "nodesById ?t1 = []"
    by (simp add: set_parent_def empty_tree_def)
  then have "distinct (map fst (nodesById ?t1))" "[] \<notin> keys (nodesById ?t1)"
    by (simp_all add: keys_def)
  from set_node_keys [OF this r, of ab]
  have "distinct (map fst (nodesById (fst (set_node ?t1 rootId ab, push_layers rootId ab []))))
      \<and> [] \<notin> keys (nodesById (fst (set_node ?t1 rootId ab, push_layers rootId ab [])))"
    by simp
  then show ?thesis using assms p parse_loop_keys by metis
qed

section \<open>Claims about the tree builder\<close>

lemma example_keys:
  "array_index ''A'' = None" "array_index ''B'' = None" "array_index ''C'' = None"
  "array_index ''D'' = None" "array_index ''N'' = None" "array_index ''outer'' = None"
  "array_index ''inner'' = None" "array_index ''constructor'' = None"
  "inherited ''constructor''" "\<not> inherited ''A''" "\<not> inherited ''B''" "\<not> inherited ''C''"
  "\<not> inherited ''D''" "\<not> inherited ''N''" "\<not> inherited ''outer''" "\<not> inherited ''inner''"
  by (simp_all add: array_index_def is_digit_def inherited_def object_prototype_names_def)

lemma small_parse: "parseLanhuTree small_doc = Inr small_tree"
  by (simp add: parseLanhuTree_def small_doc_def small_tree_def empty_tree_def
        set_node_def set_parent_def push_child_def push_layers_def define_own_def keys_def
        lookup_def example_keys)

text \<open>
  C1 (amended). Let no registered id of the document be \<open>__proto__\<close>. Then a tree that
  \<open>parseLanhuTree\<close> returns has referential integrity: every id in a child list or among the
  keys of \<open>childrenById\<close>, every key and every parent recorded in \<open>parentById\<close>, and every
  root id is a key of \<open>nodesById\<close>. If moreover no id is registered twice, that is, the ids
  of the artboard and of all traversed valid layer nodes are pairwise distinct, then no id
  is its own ancestor under \<open>parentById\<close>. The function returns a tree, and does not
  throw, for every document none of whose registered ids names a member of
  \<open>Object.prototype\<close>.
\<close>

theorem parseLanhuTree_forest:
  "(parseLanhuTree sketchJson = Inr t \<and> ''__proto__'' \<notin> set (document_ids sketchJson)
      \<longrightarrow> tree_ids t \<subseteq> keys (nodesById t)
          \<and> (distinct (document_ids sketchJson) \<longrightarrow> (\<forall>i. (i, i) \<notin> (parent_rel t)\<^sup>+)))
   \<and> ((\<forall>i \<in> set (document_ids sketchJson). \<not> inherited i)
        \<longrightarrow> (\<exists>t. parseLanhuTree sketchJson = Inr t))"
  using integ_parseLanhuTree [of sketchJson t] acyc_parseLanhuTree [of sketchJson t]
    safe_parseLanhuTree [of sketchJson]
  by (simp add: acyclic_def)

theorem parseLanhuTree_forest_witness:
  "parseLanhuTree small_doc = Inr small_tree
   \<and> document_ids small_doc = [''A'', ''B'', ''C'', ''D'']
   \<and> tree_ids small_tree \<subseteq> keys (nodesById small_tree)
   \<and> (\<forall>i. (i, i) \<notin> (parent_rel small_tree)\<^sup>+)"
proof -
  have d: "document_ids small_doc = [''A'', ''B'', ''C'', ''D'']"
    by (simp add: document_ids_def entry_ids_def small_doc_def)
  have "\<forall>i \<in> set (document_ids small_doc). \<not> inherited i"
    unfolding d by (simp add: example_keys)
  with parseLanhuTree_forest [of small_doc small_tree] small_parse d show ?thesis by simp
qed

text \<open>
  The claim as stated fails for a document that uses an id twice: the layer \<open>A\<close> inside the
  artboard \<open>A\<close> becomes its own parent. It fails for a layer with the id \<open>__proto__\<close>: the
  id enters the child list of its parent and is a key of neither \<open>nodesById\<close> nor
  \<open>parentById\<close>, the layer having become the prototype of \<open>nodesById\<close>.
\<close>

theorem parseLanhuTree_cycle_counterexample:
  "parseLanhuTree
      \<lparr>meta = Null, assets = Null,
       artboard = ObjectEntry (Layer (Some ''A'')
         (Some [ObjectEntry (Layer (Some ''A'') None [])]) [])\<rparr>
     = Inr \<lparr>nodesById = [(''A'', Layer (Some ''A'') None [])],
            childrenById = [(''A'', [''A''])],
            parentById = [(''A'', Some ''A'')],
            rootIds = [''A''], nodesProto = None, parentProtoNull = False\<rparr>
   \<and> (''A'', ''A'') \<in> (parent_rel
          \<lparr>nodesById = [(''A'', Layer (Some ''A'') None [])],
           childrenById = [(''A'', [''A''])],
           parentById = [(''A'', Some ''A'')],
           rootIds = [''A''], nodesProto = None, parentProtoNull = False\<rparr>)\<^sup>+
   \<and> parseLanhuTree
      \<lparr>meta = Null, assets = Null,
       artboard = ObjectEntry (Layer (Some ''A'')
         (Some [ObjectEntry (Layer (Some ''__proto__'') None [])]) [])\<rparr>
     = Inr \<lparr>nodesById = [(''A'', Layer (Some ''A'')
                             (Some [ObjectEntry (Layer (Some ''__proto__'') None [])]) [])],
            childrenById = [(''A'', [''__proto__''])],
            parentById = [(''A'', None)],
            rootIds = [''A''],
            nodesProto = Some (Layer (Some ''__proto__'') None []), parentProtoNull = False\<rparr>
   \<and> ''__proto__'' \<in> tree_ids
          \<lparr>nodesById = [(''A'', Layer (Some ''A'')
                             (Some [ObjectEntry (Layer (Some ''__proto__'') None [])]) [])],
           childrenById = [(''A'', [''__proto__''])],
           parentById = [(''A'', None)],
           rootIds = [''A''],
           nodesProto = Some (Layer (Some ''__proto__'') None []), parentProtoNull = False\<rparr>
   \<and> ''__proto__'' \<notin> keys (nodesById
          \<lparr>nodesById = [(''A'', Layer (Some ''A'')
                             (Some [ObjectEntry (Layer (Some ''__proto__'') None [])]) [])],
           childrenById = [(''A'', [''__proto__''])],
           parentById = [(''A'', None)],
           rootIds = [''A''],
           nodesProto = Some (Layer (Some ''__proto__'') None []), parentProtoNull = False\<rparr>)"
proof -
  have p: "array_index ''__proto__'' = None"
    by (simp add: array_index_def is_digit_def)
  have a: "parseLanhuTree
      \<lparr>meta = Null, assets = Null,
       artboard = ObjectEntry (Layer (Some ''A'')
         (Some [ObjectEntry (Layer (Some ''A'') None [])]) [])\<rparr>
     = Inr \<lparr>nodesById = [(''A'', Layer (Some ''A'') None [])],
            childrenById = [(''A'', [''A''])],
            parentById = [(''A'', Some ''A'')],
            rootIds = [''A''], nodesProto = None, parentProtoNull = False\<rparr>"
    by (simp add: parseLanhuTree_def empty_tree_def set_node_def set_parent_def push_child_def
          push_layers_def define_own_def keys_def lookup_def example_keys)
  have b: "(''A'', ''A'') \<in> (parent_rel
          \<lparr>nodesById = [(''A'', Layer (Some ''A'') None [])],
           childrenById = [(''A'', [''A''])],
           parentById = [(''A'', Some ''A'')],
           rootIds = [''A''], nodesProto = None, parentProtoNull = False\<rparr>)\<^sup>+"
    by (simp add: parent_rel_def lookup_def r_into_trancl')
  have c: "parseLanhuTree
      \<lparr>meta = Null, assets = Null,
       artboard = ObjectEntry (Layer (Some ''A'')
         (Some [ObjectEntry (Layer (Some ''__proto__'') None [])]) [])\<rparr>
     = Inr \<lparr>nodesById = [(''A'', Layer (Some ''A'')
                             (Some [ObjectEntry (Layer (Some ''__proto__'') None [])]) [])],
            childrenById = [(''A'', [''__proto__''])],
            parentById = [(''A'', None)],
            rootIds = [''A''],
            nodesProto = Some (Layer (Some ''__proto__'') None []), parentProtoNull = False\<rparr>"
    by (simp add: parseLanhuTree_def empty_tree_def set_node_def set_parent_def push_child_def
          push_layers_def define_own_def keys_def lookup_def example_keys p)
  have d: "''__proto__'' \<in> tree_ids
          \<lparr>nodesById = [(''A'', Layer (Some ''A'')
                             (Some [ObjectEntry (Layer (Some ''__proto__'') None [])]) [])],
           childrenById = [(''A'', [''__proto__''])],
           parentById = [(''A'', None)],
           rootIds = [''A''],
           nodesProto = Some (Layer (Some ''__proto__'') None []), parentProtoNull = False\<rparr>"
    by (simp add: tree_ids_def)
  have e: "''__proto__'' \<notin> keys (nodesById
          \<lparr>nodesById = [(''A'', Layer (Some ''A'')
                             (Some [ObjectEntry (Layer (Some ''__proto__'') None [])]) [])],
           childrenById = [(''A'', [''__proto__''])],
           parentById = [(''A'', None)],
           rootIds = [''A''],
           nodesProto = Some (Layer (Some ''__proto__'') None []), parentProtoNull = False\<rparr>)"
    by (simp add: keys_def)
  from a b c d e show ?thesis by blast
qed

lemma visit_all_skip:
  assumes "\<And>st. visit parentId e st = Inr st"
  shows "visit_all parentId (before @ e # after) st = visit_all parentId (before @ after) st"
proof (induction before arbitrary: st)
  case Nil
  then show ?case by (simp add: assms)
next
  case (Cons b bs)
  then show ?case by (cases "visit parentId b st") simp_all
qed

text \<open>
  C5. A queued node that is not an object, or that is an object without an id, is skipped:
  visiting it changes neither the four mappings nor the stack, so its children are never
  queued, and the traversal of its siblings gives the result it would give if the node and
  its subtree were not in the list.
\<close>

theorem skipped_subtree_dropped:
  assumes "(\<exists>p. e = NotObject p) \<or> (\<exists>node. e = ObjectEntry node \<and> layer_id node = None)"
  shows "visit parentId e (t, stack) = Inr (t, stack)
         \<and> parse_loop (t, (parentId, before @ e # after) # stack)
             = parse_loop (t, (parentId, before @ after) # stack)"
proof -
  have v: "visit parentId e st = Inr st" for st
    using assms by (cases st) auto
  then show ?thesis by (simp add: visit_all_skip)
qed

theorem skipped_subtree_dropped_witness:
  "visit ''A'' (ObjectEntry (Layer None (Some [ObjectEntry (Layer (Some ''C'') None [])]) []))
      (one_node, []) = Inr (one_node, [])
   \<and> parse_loop (one_node,
        [(''A'', [ObjectEntry (Layer None (Some [ObjectEntry (Layer (Some ''C'') None [])]) []),
                  ObjectEntry (Layer (Some ''B'') None [])])])
    = Inr two_nodes"
  using skipped_subtree_dropped [of "ObjectEntry (Layer None (Some [ObjectEntry (Layer (Some ''C'') None [])]) [])"
          "''A''" one_node "[]" "[]" "[ObjectEntry (Layer (Some ''B'') None [])]"]
  by (simp add: one_node_def two_nodes_def set_node_def set_parent_def push_child_def
        push_layers_def define_own_def keys_def lookup_def example_keys)

text \<open>
  C10. The empty id is treated as a missing id: a document whose artboard has the id \<open>""\<close>
  or no id gives the empty index, and a queued layer node with the id \<open>""\<close>, like one
  without id, is skipped with its subtree, none of the four mappings changing.
\<close>

theorem empty_id_like_missing:
  "parseLanhuTree (sketchJson\<lparr>artboard := ObjectEntry (Layer (Some []) ls ps)\<rparr>) = Inr empty_tree
   \<and> parseLanhuTree (sketchJson\<lparr>artboard := ObjectEntry (Layer None ls ps)\<rparr>) = Inr empty_tree
   \<and> visit parentId (ObjectEntry (Layer (Some []) ls ps)) (t, stack) = Inr (t, stack)
   \<and> visit parentId (ObjectEntry (Layer None ls ps)) (t, stack) = Inr (t, stack)
   \<and> parse_loop (t, (parentId, before @ ObjectEntry (Layer (Some []) ls ps) # after) # stack)
       = parse_loop (t, (parentId, before @ after) # stack)"
proof -
  have "visit parentId (ObjectEntry (Layer (Some []) ls ps)) st = Inr st" for st
    by (cases st) simp
  then show ?thesis by (simp add: parseLanhuTree_def visit_all_skip)
qed

theorem empty_id_like_missing_witness:
  "parseLanhuTree \<lparr>meta = Null, assets = Null,
       artboard = ObjectEntry (Layer (Some []) (Some [ObjectEntry (Layer (Some ''B'') None [])]) [])\<rparr>
     = Inr \<lparr>nodesById = [], childrenById = [], parentById = [], rootIds = [],
            nodesProto = None, parentProtoNull = False\<rparr>
   \<and> parse_loop (one_node,
        [(''A'', [ObjectEntry (Layer (Some []) (Some [ObjectEntry (Layer (Some ''C'') None [])]) []),
                  ObjectEntry (Layer (Some ''B'') None [])])])
    = Inr two_nodes"
  using empty_id_like_missing [where sketchJson = "\<lparr>meta = Null, assets = Null, artboard = NotObject PNull\<rparr>"
          and ls = "Some [ObjectEntry (Layer (Some ''B'') None [])]" and ps = "[]"]
    empty_id_like_missing [where ls = "Some [ObjectEntry (Layer (Some ''C'') None [])]" and ps = "[]"
          and parentId = "''A''" and before = "[]" and after = "[ObjectEntry (Layer (Some ''B'') None [])]"
          and stack = "[]" and t = one_node]
  by (simp add: empty_tree_def one_node_def two_nodes_def set_node_def set_parent_def
        push_child_def push_layers_def define_own_def keys_def lookup_def example_keys)

section \<open>Claims about rectangle resolution and export shaping\<close>

lemma isFiniteNumber_iff: "isFiniteNumber v \<longleftrightarrow> (\<exists>r. v = Number (Fin r))"
  by (cases v rule: isFiniteNumber.cases) (auto elim: js_isFinite.elims)

lemma accepted_not_truthy: "\<not> truthy c \<Longrightarrow> accepted c = None"
  by (cases c) (simp_all add: accepted_def)

lemma accepted_eq:
  "accepted c =
     (if isFiniteNumber (get_field c ''left'') \<and> isFiniteNumber (get_field c ''top'')
         \<and> isFiniteNumber (get_field c ''width'') \<and> isFiniteNumber (get_field c ''height'')
      then Some \<lparr>rect_left = as_number (get_field c ''left''),
                 rect_top = as_number (get_field c ''top''),
                 rect_width = as_number (get_field c ''width''),
                 rect_height = as_number (get_field c ''height'')\<rparr>
      else None)"
  by (auto simp: accepted_def isFiniteNumber_iff split: jsval.splits jsnum.splits)

text \<open>
  C3. The rectangle of a node comes from the first present source in the order \<open>frame\<close>,
  \<open>realFrame\<close>, \<open>combinedFrame\<close>, and from that source alone: it is the source's four fields
  when all of them are finite numbers and none otherwise, whatever the later sources hold.
\<close>

theorem getNodeRect_priority:
  "getNodeRect node = (case chosen_source node of None \<Rightarrow> None | Some c \<Rightarrow> accepted c)"
proof -
  let ?f = "coalesce (coalesce (coalesce (node_prop node ''frame'') (node_prop node ''realFrame''))
                                     (node_prop node ''combinedFrame'')) Null"
  have g: "getNodeRect node = (if truthy ?f then accepted ?f else None)"
    by (simp add: getNodeRect_def accepted_eq Let_def)
  show ?thesis
  proof (cases "chosen_source node")
    case None
    then have "?f = Null"
      by (auto simp: chosen_source_def coalesce_def split: if_splits)
    with None g show ?thesis by simp
  next
    case (Some c)
    then have "?f = c" "\<not> nullish c"
      by (auto simp: chosen_source_def coalesce_def split: if_splits)
    with Some g show ?thesis by (simp add: accepted_not_truthy)
  qed
qed

theorem getNodeRect_priority_witness:
  "getNodeRect (Layer (Some ''n'') None
      [(''frame'', Object [(''left'', Number (Fin 0)), (''top'', Number (Fin 0)),
                          (''width'', Number (Fin 10)), (''height'', Number (Fin 10))]),
       (''realFrame'', Object [(''left'', Number (Fin 5)), (''top'', Number (Fin 5)),
                              (''width'', Number (Fin 20)), (''height'', Number (Fin 20))])])
     = Some \<lparr>rect_left = Fin 0, rect_top = Fin 0, rect_width = Fin 10, rect_height = Fin 10\<rparr>
   \<and> getNodeRect (Layer (Some ''n'') None
      [(''frame'', Object [(''left'', Number (Fin 0)), (''top'', Number (Fin 0)),
                          (''width'', Number PosInf)]),
       (''realFrame'', Object [(''left'', Number (Fin 5)), (''top'', Number (Fin 5)),
                              (''width'', Number (Fin 20)), (''height'', Number (Fin 20))])])
     = None"
  using getNodeRect_priority [of "Layer (Some ''n'') None
      [(''frame'', Object [(''left'', Number (Fin 0)), (''top'', Number (Fin 0)),
                          (''width'', Number (Fin 10)), (''height'', Number (Fin 10))]),
       (''realFrame'', Object [(''left'', Number (Fin 5)), (''top'', Number (Fin 5)),
                              (''width'', Number (Fin 20)), (''height'', Number (Fin 20))])]"]
    getNodeRect_priority [of "Layer (Some ''n'') None
      [(''frame'', Object [(''left'', Number (Fin 0)), (''top'', Number (Fin 0)),
                          (''width'', Number PosInf)]),
       (''realFrame'', Object [(''left'', Number (Fin 5)), (''top'', Number (Fin 5)),
                              (''width'', Number (Fin 20)), (''height'', Number (Fin 20))])]"]
  by (simp add: chosen_source_def accepted_def node_prop_def lookup_def nullish_def)

text \<open>
  C8 (amended). The exported record has exactly the allowlisted keys, in the order of the
  allowlist. Every field other than \<open>id\<close> is the node's value, or an explicit \<open>null\<close> when
  the node has no such field (or has \<open>null\<close> there); \<open>id\<close> is copied as it is, so that it is
  \<open>undefined\<close>, not \<open>null\<close>, for a node without id.
\<close>

theorem pickExportNode_shape:
  "map fst (pickExportNode node) = allowlist
   \<and> lookup (pickExportNode node) ''id''
        = Some (case layer_id node of None \<Rightarrow> Undefined | Some s \<Rightarrow> String s)
   \<and> (\<forall>k \<in> set (tl allowlist).
         lookup (pickExportNode node) k
           = Some (if node_prop node k = Undefined \<or> node_prop node k = Null then Null
                   else node_prop node k))"
  by (simp add: pickExportNode_def allowlist_def lookup_def coalesce_def nullish_def)

theorem pickExportNode_shape_witness:
  "pickExportNode (Layer (Some ''n1'') None [(''name'', String ''box''), (''opacity'', Null)])
     = [(''id'', String ''n1''), (''name'', String ''box''), (''type'', Null), (''frame'', Null),
        (''realFrame'', Null), (''combinedFrame'', Null), (''transform'', Null),
        (''opacity'', Null), (''visible'', Null), (''rotation'', Null), (''clipped'', Null),
        (''isMask'', Null), (''origin'', Null), (''radius'', Null), (''style'', Null),
        (''paths'', Null), (''text'', Null), (''image'', Null), (''sharedStyle'', Null)]
   \<and> ''opacity'' \<in> set (tl allowlist)
   \<and> lookup (pickExportNode (Layer (Some ''n1'') None [(''name'', String ''box''), (''opacity'', Null)]))
         ''opacity'' = Some Null"
  using pickExportNode_shape [of "Layer (Some ''n1'') None [(''name'', String ''box''), (''opacity'', Null)]"]
  by (simp add: pickExportNode_def allowlist_def lookup_def coalesce_def nullish_def node_prop_def)

text \<open>
  The claim as stated fails for \<open>id\<close>: a node without id exports \<open>id: undefined\<close>.
\<close>

theorem pickExportNode_id_counterexample:
  "lookup (pickExportNode (Layer None None [])) ''id'' = Some Undefined
   \<and> lookup (pickExportNode (Layer None None [])) ''id'' \<noteq> Some Null"
  by (simp add: pickExportNode_def lookup_def)













section \<open>Claims about the ancestor walk\<close>











lemma looping_walk:
  assumes "ancestors_loop tree currentId result = Some ids"
  shows "\<not> (tree = looping_tree
            \<and> (currentId = ''constructor'' \<or> currentId = ''function Object() { [native code] }''))"
proof (rule ancestors_loop.raw_induct
    [where P = "\<lambda>tree currentId result ids. \<not> (tree = looping_tree
            \<and> (currentId = ''constructor'' \<or> currentId = ''function Object() { [native code] }''))",
     OF _ assms])
  fix f :: "LanhuTree \<Rightarrow> string \<Rightarrow> ancestor list \<Rightarrow> ancestor list option"
    and tree currentId result ids
  assume IH: "\<And>tree currentId result ids. f tree currentId result = Some ids \<Longrightarrow>
      \<not> (tree = looping_tree
            \<and> (currentId = ''constructor'' \<or> currentId = ''function Object() { [native code] }''))"
  assume step: "(case lookup (parentById tree) currentId of
            Some None \<Rightarrow> Some result
          | Some (Some parentId) \<Rightarrow>
              if parentId = [] then Some result else f tree parentId (result @ [Parent parentId])
          | None \<Rightarrow>
              if inherited currentId \<and> \<not> parentProtoNull tree
              then f tree (member_key currentId) (result @ [Member currentId])
              else Some result) = Some ids"
  show "\<not> (tree = looping_tree
            \<and> (currentId = ''constructor'' \<or> currentId = ''function Object() { [native code] }''))"
  proof
    assume a: "tree = looping_tree
            \<and> (currentId = ''constructor'' \<or> currentId = ''function Object() { [native code] }'')"
    then consider "currentId = ''constructor''" | "currentId = ''function Object() { [native code] }''"
      by blast
    then show False
    proof cases
      case 1
      with a step have "f looping_tree ''function Object() { [native code] }''
          (result @ [Member ''constructor'']) = Some ids"
        by (simp add: looping_tree_def lookup_def inherited_def object_prototype_names_def
              member_key_def)
      with IH show False by blast
    next
      case 2
      with a step have "f looping_tree ''constructor''
          (result @ [Parent ''constructor'']) = Some ids"
        by (simp add: looping_tree_def lookup_def)
      with IH show False by blast
    qed
  qed
qed

text \<open>
  Without the registration of the parents the absence of cycles does not make the walk
  return.
\<close>

lemma getAncestorIds_diverges:
  "(\<forall>i. (i, i) \<notin> (parent_rel looping_tree)\<^sup>+)
   \<and> getAncestorIds looping_tree ''constructor'' = None"
proof -
  have "parent_rel looping_tree = {(''function Object() { [native code] }'', ''constructor'')}"
    by (auto simp: parent_rel_def looping_tree_def lookup_def split: if_splits)
  then have "(i, i) \<notin> (parent_rel looping_tree)\<^sup>+" for i
    by (auto simp: trancl_insert)
  moreover have "getAncestorIds looping_tree ''constructor'' = None"
    using looping_walk [of looping_tree "''constructor''" "[]"]
    by (cases "getAncestorIds looping_tree ''constructor''") (auto simp: getAncestorIds_def)
  ultimately show ?thesis by blast
qed

section \<open>Claims about the geometry index, the hit test and the containment export\<close>

lemma positive_iff: "(\<not> js_isFinite a \<or> js_le a (Fin 0)) \<longleftrightarrow> \<not> (js_isFinite a \<and> js_lt (Fin 0) a)"
  by (cases a) auto

lemma index_step_eq:
  "index_step ar kv items = (if indexable ar (snd kv) then items @ [geometry_entry ar kv] else items)"
proof (cases "getNodeRect (snd kv)")
  case None
  then show ?thesis by (simp add: index_step_def indexable_def)
next
  case (Some r)
  then show ?thesis
    using positive_iff [of "f_mul ar (rect_width r) (rect_height r)"]
    by (simp add: index_step_def indexable_def geometry_entry_def rect_area_def Let_def)
qed

lemma index_step_not_finite:
  assumes "getNodeRect (snd kv) = Some r"
    and "\<not> js_isFinite (f_mul ar (rect_width r) (rect_height r))"
  shows "index_step ar kv items = items"
  using assms by (simp add: index_step_def)

lemma fold_index_step:
  "fold (index_step ar) kvs acc = acc @ map (geometry_entry ar) (filter (\<lambda>kv. indexable ar (snd kv)) kvs)"
  by (induction kvs arbitrary: acc) (simp_all add: index_step_eq)

lemma mset_js_insert: "mset (js_insert cmp x ys) = add_mset x (mset ys)"
  by (induction ys) simp_all

lemma mset_js_sort: "mset (js_sort cmp xs) = mset xs"
  by (induction xs) (simp_all add: js_sort_def mset_js_insert)

lemma set_js_insert: "set (js_insert cmp x ys) = insert x (set ys)"
  by (induction ys) auto

lemma cmp_area:
  assumes "difference_sign ar S" and "a \<in> set S" and "b \<in> set S"
    and "js_isFinite (item_area a)" and "js_isFinite (item_area b)"
  shows "cmp_before (f_sub ar (item_area a) (item_area b))
          \<longleftrightarrow> finite_value (item_area a) \<le> finite_value (item_area b)"
proof -
  from assms(1-3) have "cmp_before (f_sub ar (item_area a) (item_area b))
      = js_le (item_area a) (item_area b)"
    by (simp add: difference_sign_def)
  with assms(4,5) show ?thesis
    by (cases "item_area a"; cases "item_area b") simp_all
qed

lemma sorted_js_insert:
  assumes "difference_sign ar S" and "js_isFinite (item_area x)" and "\<forall>y \<in> set ys. js_isFinite (item_area y)"
    and "sorted (map (\<lambda>it. finite_value (item_area it)) ys)"
    and "x \<in> set S" and "set ys \<subseteq> set S"
  shows "sorted (map (\<lambda>it. finite_value (item_area it))
                     (js_insert (\<lambda>a b. f_sub ar (item_area a) (item_area b)) x ys))"
  using assms(3,4,6)
proof (induction ys)
  case Nil
  then show ?case by simp
next
  case (Cons y ys)
  from Cons.prems assms(1,2,5)
  have c: "cmp_before (f_sub ar (item_area x) (item_area y))
          \<longleftrightarrow> finite_value (item_area x) \<le> finite_value (item_area y)"
    by (intro cmp_area [of ar S]) simp_all
  show ?case
  proof (cases "finite_value (item_area x) \<le> finite_value (item_area y)")
    case True
    with Cons.prems c show ?thesis
      by auto
  next
    case False
    with Cons c show ?thesis
      by (auto simp: set_js_insert)
  qed
qed

lemma sorted_js_sort:
  assumes "difference_sign ar S" and "\<forall>y \<in> set xs. js_isFinite (item_area y)"
    and "set xs \<subseteq> set S"
  shows "sorted (map (\<lambda>it. finite_value (item_area it))
                     (js_sort (\<lambda>a b. f_sub ar (item_area a) (item_area b)) xs))"
  using assms(2,3)
proof (induction xs)
  case Nil
  then show ?case by (simp add: js_sort_def)
next
  case (Cons x xs)
  let ?s = "js_sort (\<lambda>a b. f_sub ar (item_area a) (item_area b)) xs"
  have e: "set ?s = set xs" using mset_js_sort [of _ xs] by (metis set_mset_mset)
  with Cons.prems have f: "\<forall>y \<in> set ?s. js_isFinite (item_area y)" by simp
  from e Cons.prems have g: "x \<in> set S" "set ?s \<subseteq> set S" by simp_all
  have "sorted (map (\<lambda>it. finite_value (item_area it)) ?s)"
    using Cons by simp
  with f g Cons.prems assms(1) have "sorted (map (\<lambda>it. finite_value (item_area it))
                     (js_insert (\<lambda>a b. f_sub ar (item_area a) (item_area b)) x ?s))"
    by (intro sorted_js_insert [of ar S]) simp_all
  then show ?case by (simp add: js_sort_def)
qed

lemma area_le_finite:
  "js_isFinite (item_area a) \<Longrightarrow> js_isFinite (item_area b)
   \<Longrightarrow> area_le a b \<longleftrightarrow> finite_value (item_area a) \<le> finite_value (item_area b)"
  by (cases "item_area a"; cases "item_area b") (simp_all add: area_le_def)

lemma sorted_wrt_area_le:
  assumes "\<forall>y \<in> set xs. js_isFinite (item_area y)"
    and "sorted (map (\<lambda>it. finite_value (item_area it)) xs)"
  shows "sorted_wrt area_le xs"
  using assms
  by (induction xs) (auto simp: area_le_finite)

lemma geometry_entry_finite:
  "indexable ar (snd kv) \<Longrightarrow> js_isFinite (item_area (geometry_entry ar kv))
      \<and> js_lt (Fin 0) (item_area (geometry_entry ar kv))"
  by (auto simp: indexable_def geometry_entry_def split: option.splits)

lemma pick_fold:
  "fold (\<lambda>item candidates.
             let r = item_rect item
             in if js_ge x (rect_left r) \<and> js_le x (f_add ar (rect_left r) (rect_width r))
                   \<and> js_ge y (rect_top r) \<and> js_le y (f_add ar (rect_top r) (rect_height r))
                then candidates @ [item_id item] else candidates) idx acc
    = acc @ map item_id (filter (\<lambda>it. contains_point ar (item_rect it) x y) idx)"
  by (induction idx arbitrary: acc) (simp_all add: contains_point_def js_ge_def Let_def)

lemma pickCandidatesAtPoint_filter:
  "pickCandidatesAtPoint ar idx x y
     = map item_id (filter (\<lambda>it. contains_point ar (item_rect it) x y) idx)"
  by (simp add: pickCandidatesAtPoint_def pick_fold)

lemma rectIndexAll_entries:
  "\<exists>idx. rectIndexAll ar (Some tree) = Some idx \<and> mset idx = mset (geometry_entries ar tree)
         \<and> (difference_sign ar (geometry_entries ar tree) \<longrightarrow> sorted_wrt area_le idx)"
proof -
  let ?es = "geometry_entries ar tree"
  let ?idx = "js_sort (\<lambda>a b. f_sub ar (item_area a) (item_area b)) ?es"
  have r: "rectIndexAll ar (Some tree) = Some ?idx"
    by (simp add: rectIndexAll_def fold_index_step geometry_entries_def)
  have m: "mset ?idx = mset ?es" by (rule mset_js_sort)
  have fin: "\<forall>it \<in> set ?es. js_isFinite (item_area it)"
    using geometry_entry_finite by (auto simp: geometry_entries_def)
  have "sorted_wrt area_le ?idx" if d: "difference_sign ar ?es"
  proof -
    have "sorted (map (\<lambda>it. finite_value (item_area it)) ?idx)"
      using d fin by (rule sorted_js_sort) simp
    moreover have "set ?idx = set ?es" using m by (metis set_mset_mset)
    ultimately show ?thesis
      using fin by (intro sorted_wrt_area_le) simp_all
  qed
  with r m show ?thesis by blast
qed

lemma geometry_entries_set:
  "it \<in> set (geometry_entries ar tree) \<longleftrightarrow>
     (\<exists>i node r. (i, node) \<in> set (nodesById tree) \<and> getNodeRect node = Some r
        \<and> js_isFinite (rect_area ar r) \<and> js_lt (Fin 0) (rect_area ar r)
        \<and> it = \<lparr>item_id = i, item_rect = r, item_area = rect_area ar r\<rparr>)"
  by (force simp: geometry_entries_def geometry_entry_def indexable_def image_iff split: option.splits)

text \<open>
  C2. For every arithmetic of the engine, the geometry index of a tree holds exactly one
  entry for every node whose rectangle resolves with a finite area (width times height)
  above zero; it is sorted by ascending area when the comparator of the sort has the sign
  of the comparison on these entries. The hit test returns the ids of exactly the entries
  whose rectangle contains the point, bounds included, in the order of the index, hence by
  ascending area; it returns the empty list when no entry contains the point.
\<close>

theorem geometry_index_hit_test:
  "(\<exists>idx. rectIndexAll ar (Some tree) = Some idx
       \<and> mset idx = mset (geometry_entries ar tree)
       \<and> (\<forall>it. it \<in> set idx \<longleftrightarrow>
             (\<exists>i node r. (i, node) \<in> set (nodesById tree) \<and> getNodeRect node = Some r
                \<and> js_isFinite (rect_area ar r) \<and> js_lt (Fin 0) (rect_area ar r)
                \<and> it = \<lparr>item_id = i, item_rect = r, item_area = rect_area ar r\<rparr>))
       \<and> (difference_sign ar (geometry_entries ar tree) \<longrightarrow>
             sorted_wrt area_le idx
             \<and> sorted_wrt area_le (filter (\<lambda>it. contains_point ar (item_rect it) x y) idx)))
   \<and> pickCandidatesAtPoint ar rectIndex x y
        = map item_id (filter (\<lambda>it. contains_point ar (item_rect it) x y) rectIndex)
   \<and> ((\<forall>it \<in> set rectIndex. \<not> contains_point ar (item_rect it) x y)
        \<longrightarrow> pickCandidatesAtPoint ar rectIndex x y = [])"
proof -
  from rectIndexAll_entries [of ar tree]
  obtain idx where idx: "rectIndexAll ar (Some tree) = Some idx"
    "mset idx = mset (geometry_entries ar tree)"
    "difference_sign ar (geometry_entries ar tree) \<longrightarrow> sorted_wrt area_le idx" by blast
  from idx(2) have "set idx = set (geometry_entries ar tree)" by (metis set_mset_mset)
  then have mem: "\<forall>it. it \<in> set idx \<longleftrightarrow>
             (\<exists>i node r. (i, node) \<in> set (nodesById tree) \<and> getNodeRect node = Some r
                \<and> js_isFinite (rect_area ar r) \<and> js_lt (Fin 0) (rect_area ar r)
                \<and> it = \<lparr>item_id = i, item_rect = r, item_area = rect_area ar r\<rparr>)"
    using geometry_entries_set [of _ ar tree] by simp
  have srt: "difference_sign ar (geometry_entries ar tree) \<longrightarrow>
             sorted_wrt area_le idx
             \<and> sorted_wrt area_le (filter (\<lambda>it. contains_point ar (item_rect it) x y) idx)"
    using idx(3) sorted_wrt_filter [of area_le idx] by blast
  from idx(1,2) mem srt have "\<exists>idx. rectIndexAll ar (Some tree) = Some idx
       \<and> mset idx = mset (geometry_entries ar tree)
       \<and> (\<forall>it. it \<in> set idx \<longleftrightarrow>
             (\<exists>i node r. (i, node) \<in> set (nodesById tree) \<and> getNodeRect node = Some r
                \<and> js_isFinite (rect_area ar r) \<and> js_lt (Fin 0) (rect_area ar r)
                \<and> it = \<lparr>item_id = i, item_rect = r, item_area = rect_area ar r\<rparr>))
       \<and> (difference_sign ar (geometry_entries ar tree) \<longrightarrow>
             sorted_wrt area_le idx
             \<and> sorted_wrt area_le (filter (\<lambda>it. contains_point ar (item_rect it) x y) idx))"
    by blast
  then show ?thesis
    by (simp add: pickCandidatesAtPoint_filter filter_empty_conv)
qed

lemma nested_parse: "parseLanhuTree nested_doc = Inr nested_tree"
  by (simp add: parseLanhuTree_def nested_doc_def nested_tree_def outer_layer_def empty_tree_def
        set_node_def set_parent_def push_child_def push_layers_def define_own_def keys_def
        lookup_def example_keys)

lemma exact_arith_simps:
  "f_mul exact_arith = exact_mul" "f_add exact_arith = exact_add" "f_sub exact_arith = exact_sub"
  by (simp_all add: exact_arith_def)

lemma exact_difference_sign:
  assumes "\<forall>it \<in> set items. js_isFinite (item_area it)"
  shows "difference_sign exact_arith items"
  unfolding difference_sign_def
proof (intro ballI)
  fix a b
  assume "a \<in> set items" "b \<in> set items"
  with assms have "js_isFinite (item_area a)" "js_isFinite (item_area b)" by simp_all
  then show "cmp_before (f_sub exact_arith (item_area a) (item_area b))
      = js_le (item_area a) (item_area b)"
    by (cases "item_area a"; cases "item_area b") (simp_all add: exact_arith_simps exact_sub_def)
qed

lemma getNodeRect_frame:
  "getNodeRect (Layer i ls [(''frame'', rect_object l t w h)])
     = Some \<lparr>rect_left = Fin l, rect_top = Fin t, rect_width = Fin w, rect_height = Fin h\<rparr>"
  by (simp add: getNodeRect_def node_prop_def lookup_def coalesce_def nullish_def rect_object_def)

lemma getNodeRect_no_frame:
  "getNodeRect (Layer i ls []) = None" "getNodeRect (Layer i ls [(''name'', v)]) = None"
  by (simp_all add: getNodeRect_def node_prop_def lookup_def coalesce_def nullish_def)

lemma nested_index:
  "rectIndexAll exact_arith (Some nested_tree) = Some [inner_item, outer_item]"
  by (simp add: rectIndexAll_def nested_tree_def outer_layer_def index_step_def getNodeRect_frame
        getNodeRect_no_frame js_sort_def exact_arith_simps exact_sub_def inner_item_def
        outer_item_def)

theorem geometry_index_hit_test_witness:
  "parseLanhuTree nested_doc = Inr nested_tree
   \<and> difference_sign exact_arith (geometry_entries exact_arith nested_tree)
   \<and> rectIndexAll exact_arith (Some nested_tree) = Some [inner_item, outer_item]
   \<and> mset [inner_item, outer_item] = mset (geometry_entries exact_arith nested_tree)
   \<and> sorted_wrt area_le [inner_item, outer_item]
   \<and> pickCandidatesAtPoint exact_arith [inner_item, outer_item] (Fin 15) (Fin 15) = [''inner'', ''outer'']
   \<and> \<not> contains_point exact_arith (item_rect inner_item) (Fin 500) (Fin 15)
   \<and> \<not> contains_point exact_arith (item_rect outer_item) (Fin 500) (Fin 15)
   \<and> pickCandidatesAtPoint exact_arith [inner_item, outer_item] (Fin 500) (Fin 15) = []"
proof -
  have miss: "\<forall>it \<in> set [inner_item, outer_item].
      \<not> contains_point exact_arith (item_rect it) (Fin 500) (Fin 15)"
    by (simp add: contains_point_def inner_item_def outer_item_def exact_arith_simps)
  have ds: "difference_sign exact_arith (geometry_entries exact_arith nested_tree)"
    using geometry_entry_finite [of exact_arith]
    by (intro exact_difference_sign) (auto simp: geometry_entries_def)
  have hit: "filter (\<lambda>it. contains_point exact_arith (item_rect it) (Fin 15) (Fin 15))
         [inner_item, outer_item] = [inner_item, outer_item]"
    by (simp add: contains_point_def inner_item_def outer_item_def exact_arith_simps)
  from geometry_index_hit_test [of exact_arith nested_tree "Fin 15" "Fin 15" "[inner_item, outer_item]"]
    geometry_index_hit_test [of exact_arith nested_tree "Fin 500" "Fin 15" "[inner_item, outer_item]"]
    miss hit ds
  show ?thesis
    by (simp add: nested_parse nested_index inner_item_def outer_item_def)
qed

lemma indexOf_absent: "x \<notin> set xs \<Longrightarrow> indexOf xs x = - 1"
  by (induction xs) auto

lemma indexOf_nth: "distinct xs \<Longrightarrow> i < length xs \<Longrightarrow> indexOf xs (xs ! i) = int i"
proof (induction xs arbitrary: i)
  case Nil
  then show ?case by simp
next
  case (Cons y ys)
  show ?case
  proof (cases i)
    case 0
    then show ?thesis by simp
  next
    case (Suc j)
    with Cons.prems have j: "j < length ys" "distinct ys" "ys ! j \<noteq> y"
      by (auto dest: nth_mem)
    then have "indexOf ys (ys ! j) = int j" using Cons.IH by simp
    with j Suc show ?thesis by simp
  qed
qed

lemma candidates_distinct:
  assumes "distinct (map item_id rectIndex)"
  shows "distinct (pickCandidatesAtPoint ar rectIndex x y)"
  unfolding pickCandidatesAtPoint_filter using assms by (rule distinct_map_filter)

lemma candidates_subset:
  "set (pickCandidatesAtPoint ar rectIndex x y) \<subseteq> item_id ` set rectIndex"
  by (auto simp: pickCandidatesAtPoint_filter)

lemma geometry_index_ids:
  assumes "rectIndexAll ar (Some tree) = Some idx"
  shows "item_id ` set idx \<subseteq> keys (nodesById tree)"
    and "distinct (map fst (nodesById tree)) \<Longrightarrow> distinct (map item_id idx)"
proof -
  from rectIndexAll_entries [of ar tree] assms
  have m: "mset idx = mset (geometry_entries ar tree)" by simp
  have ids: "map item_id (geometry_entries ar tree)
               = map fst (filter (\<lambda>kv. indexable ar (snd kv)) (nodesById tree))"
    by (simp add: geometry_entries_def geometry_entry_def)
  from m have mm: "mset (map item_id idx) = mset (map item_id (geometry_entries ar tree))"
    by simp
  from m have "set idx = set (geometry_entries ar tree)" by (metis set_mset_mset)
  then have "item_id ` set idx = set (map item_id (geometry_entries ar tree))" by simp
  then show "item_id ` set idx \<subseteq> keys (nodesById tree)"
    unfolding ids by (auto simp: keys_def)
  assume "distinct (map fst (nodesById tree))"
  then have "distinct (map item_id (geometry_entries ar tree))"
    unfolding ids by (rule distinct_map_filter)
  with mm show "distinct (map item_id idx)"
    by (metis mset_eq_imp_distinct_iff)
qed

lemma parsed_index_ids:
  assumes "parseLanhuTree sketchJson = Inr tree" and "rectIndexAll ar (Some tree) = Some idx"
  shows "distinct (map item_id idx) \<and> [] \<notin> item_id ` set idx"
  using geometry_index_ids [OF assms(2)] parseLanhuTree_keys [OF assms(1)] by blast

text \<open>
  C4. Let the ids of the geometry index be distinct and non-empty, as they are for the index
  of every parsed document, and let \<open>c\<close> be the candidate list of the clicked point. If
  the signature of \<open>c\<close> is the one of the previous click and the selected id is at index
  \<open>i\<close> of \<open>c\<close>, not the last index, the click selects the candidate at index \<open>i + 1\<close>. If
  \<open>c\<close> is not empty and nothing is selected, or the selected id is not in \<open>c\<close>, or the signature
  differs, the click selects the candidate at index 0. The new signature is that of \<open>c\<close>;
  a click that hits nothing changes nothing.
\<close>

theorem onClickSvg_expansion:
  assumes "distinct (map item_id rectIndex)" and "[] \<notin> item_id ` set rectIndex"
    and "c = pickCandidatesAtPoint ar rectIndex x y"
  shows "(lastPick st = Some (join ''|'' c) \<and> Suc i < length c \<and> selectedId st = Some (c ! i)
            \<longrightarrow> selectedId (onClickSvg ar rectIndex x y st) = Some (c ! Suc i))
       \<and> (c \<noteq> [] \<and> (selectedId st = None \<or> (\<exists>s. selectedId st = Some s \<and> s \<notin> set c)
                      \<or> lastPick st \<noteq> Some (join ''|'' c))
            \<longrightarrow> selectedId (onClickSvg ar rectIndex x y st) = Some (c ! 0))
       \<and> (c \<noteq> [] \<longrightarrow> lastPick (onClickSvg ar rectIndex x y st) = Some (join ''|'' c))
       \<and> (c = [] \<longrightarrow> onClickSvg ar rectIndex x y st = st)"
proof -
  have d: "distinct c" unfolding assms(3) using assms(1) by (rule candidates_distinct)
  have ne: "[] \<notin> set c" using candidates_subset [of ar rectIndex x y] assms(2,3) by blast
  have adv: "selectedId (onClickSvg ar rectIndex x y st) = Some (c ! Suc i)"
    if "lastPick st = Some (join ''|'' c)" "Suc i < length c" "selectedId st = Some (c ! i)"
  proof -
    from that(2) have i: "i < length c" by simp
    then have "c ! i \<in> set c" by simp
    with ne have sel: "c ! i \<noteq> []" by metis
    have idx: "indexOf c (c ! i) = int i" using d i by (rule indexOf_nth)
    from that(2) have cne: "c \<noteq> []" by auto
    show ?thesis
      using that sel idx cne assms(3) [symmetric]
      by (simp add: onClickSvg_def Let_def nat_add_distrib)
  qed
  have reset: "selectedId (onClickSvg ar rectIndex x y st) = Some (c ! 0)"
    if "c \<noteq> []" "selectedId st = None \<or> (\<exists>s. selectedId st = Some s \<and> s \<notin> set c)
                      \<or> lastPick st \<noteq> Some (join ''|'' c)"
  proof (cases "selectedId st")
    case None
    with that(1) assms(3) [symmetric] show ?thesis by (simp add: onClickSvg_def Let_def)
  next
    case (Some s)
    show ?thesis
    proof (cases "lastPick st = Some (join ''|'' c)")
      case False
      with Some that(1) assms(3) [symmetric] show ?thesis by (simp add: onClickSvg_def Let_def)
    next
      case True
      with that(2) Some have "s \<notin> set c" by simp
      then have "indexOf c s = - 1" by (rule indexOf_absent)
      with Some that(1) assms(3) [symmetric] show ?thesis by (simp add: onClickSvg_def Let_def)
    qed
  qed
  have sig: "lastPick (onClickSvg ar rectIndex x y st) = Some (join ''|'' c)" if "c \<noteq> []"
    using that assms(3) [symmetric] by (simp add: onClickSvg_def Let_def)
  have none: "onClickSvg ar rectIndex x y st = st" if "c = []"
    using that assms(3) [symmetric] by (simp add: onClickSvg_def)
  show ?thesis using adv reset sig none by blast
qed

theorem onClickSvg_expansion_witness:
  "distinct (map item_id [inner_item, outer_item])
   \<and> [] \<notin> item_id ` set [inner_item, outer_item]
   \<and> pickCandidatesAtPoint exact_arith [inner_item, outer_item] (Fin 15) (Fin 15) = [''inner'', ''outer'']
   \<and> selectedId (onClickSvg exact_arith [inner_item, outer_item] (Fin 15) (Fin 15)
        \<lparr>lastPick = Some ''inner|outer'', selectedId = Some ''inner''\<rparr>) = Some ''outer''
   \<and> selectedId (onClickSvg exact_arith [inner_item, outer_item] (Fin 15) (Fin 15)
        \<lparr>lastPick = Some ''outer'', selectedId = Some ''outer''\<rparr>) = Some ''inner''
   \<and> selectedId (onClickSvg exact_arith [inner_item, outer_item] (Fin 15) (Fin 15)
        \<lparr>lastPick = Some ''inner|outer'', selectedId = Some ''N''\<rparr>) = Some ''inner''"
proof -
  have d: "distinct (map item_id [inner_item, outer_item])"
    by (simp add: inner_item_def outer_item_def)
  have n: "[] \<notin> item_id ` set [inner_item, outer_item]"
    by (simp add: inner_item_def outer_item_def)
  have c: "[''inner'', ''outer'']
      = pickCandidatesAtPoint exact_arith [inner_item, outer_item] (Fin 15) (Fin 15)"
    by (simp add: pickCandidatesAtPoint_def inner_item_def outer_item_def js_ge_def
          exact_arith_simps)
  from onClickSvg_expansion [OF d n c, of "\<lparr>lastPick = Some ''inner|outer'', selectedId = Some ''inner''\<rparr>" 0]
    onClickSvg_expansion [OF d n c, of "\<lparr>lastPick = Some ''outer'', selectedId = Some ''outer''\<rparr>" 0]
    onClickSvg_expansion [OF d n c, of "\<lparr>lastPick = Some ''inner|outer'', selectedId = Some ''N''\<rparr>" 0]
  show ?thesis using d n c [symmetric] by simp
qed





end
